theory Spec2Isabelle
  imports Main "HOL-Library.AList" "HOL-Library.Sublist"
begin

section \<open>Errors, paths and numeric strings\<close>

text \<open>
  The Go \<^verbatim>\<open>error\<close> values that pqueue.go can see: the errno of a failed system call
  (wrapped by the os package) and the two errors of strconv.Atoi.
\<close>

datatype error =
    ENOENT | EEXIST | ENOTDIR | EISDIR | ENOTEMPTY | EINVAL | EBUSY
  | EACCES | EPERM | EIO | ENOSPC | ESRCH
  | ErrSyntax | ErrRange

text \<open>os.IsNotExist and os.IsExist look at the errno under the wrapper.\<close>

definition os_IsNotExist :: "error \<Rightarrow> bool" where
  "os_IsNotExist e = (e = ENOENT)"

definition os_IsExist :: "error \<Rightarrow> bool" where
  "os_IsExist e = (e = EEXIST \<or> e = ENOTEMPTY)"

text \<open>
  A cleaned path is the list of its components below the root; relative paths are read
  from a working directory that is the root. path.Join joins its elements with a slash
  and cleans the result lexically: empty and dot components vanish, dot-dot removes the
  component before it.
\<close>

type_synonym path = "string list"
type_synonym bytes = "char list"

fun split_slash :: "string \<Rightarrow> string list" where
  "split_slash [] = [[]]"
| "split_slash (c # cs) =
     (if c = CHR ''/'' then [] # split_slash cs
      else (case split_slash cs of [] \<Rightarrow> [[c]] | x # xs \<Rightarrow> (c # x) # xs))"

definition clean_step :: "path \<Rightarrow> string \<Rightarrow> path" where
  "clean_step p s =
     (if s = [] \<or> s = ''.'' then p else if s = ''..'' then butlast p else p @ [s])"

definition pjoin :: "path \<Rightarrow> string list \<Rightarrow> path" where
  "pjoin p ss = foldl clean_step p (concat (map split_slash ss))"

definition path_Join :: "string list \<Rightarrow> path" where
  "path_Join ss = pjoin [] ss"

definition path_Base :: "path \<Rightarrow> string" where
  "path_Base p = (if p = [] then ''/'' else last p)"

definition valid_name :: "string \<Rightarrow> bool" where
  "valid_name s = (s \<noteq> [] \<and> CHR ''/'' \<notin> set s \<and> s \<noteq> ''.'' \<and> s \<noteq> ''..'')"

text \<open>strconv.Itoa and strconv.Atoi, for a 64-bit int.\<close>

definition digit_chars :: string where
  "digit_chars = ''0123456789''"

fun index_of :: "'a \<Rightarrow> 'a list \<Rightarrow> nat option" where
  "index_of x [] = None"
| "index_of x (y # ys) = (if x = y then Some 0 else map_option Suc (index_of x ys))"

definition digit_val :: "char \<Rightarrow> nat option" where
  "digit_val c = index_of c digit_chars"

function digits10 :: "nat \<Rightarrow> string" where
  "digits10 n = (if n < 10 then [digit_chars ! n] else digits10 (n div 10) @ [digit_chars ! (n mod 10)])"
  by pat_completeness auto
termination
  by (relation "measure id") auto

declare digits10.simps [simp del]

definition Itoa :: "int \<Rightarrow> string" where
  "Itoa i = (if i < 0 then CHR ''-'' # digits10 (nat (- i)) else digits10 (nat i))"

fun parse_digits :: "nat \<Rightarrow> string \<Rightarrow> nat option" where
  "parse_digits acc [] = Some acc"
| "parse_digits acc (c # cs) =
     (case digit_val c of None \<Rightarrow> None | Some d \<Rightarrow> parse_digits (acc * 10 + d) cs)"

definition Atoi :: "string \<Rightarrow> error + int" where
  "Atoi s =
     (let (neg, rest) =
        (case s of
           [] \<Rightarrow> (False, [])
         | c # cs \<Rightarrow>
             if c = CHR ''+'' then (False, cs)
             else if c = CHR ''-'' then (True, cs)
             else (False, s))
      in if rest = [] then Inl ErrSyntax
         else (case parse_digits 0 rest of
                 None \<Rightarrow> Inl ErrSyntax
               | Some un \<Rightarrow>
                   if \<not> neg \<and> un \<ge> 2 ^ 63 then Inl ErrRange
                   else if neg \<and> un > 2 ^ 63 then Inl ErrRange
                   else Inr (if neg then - int un else int un)))"

section \<open>The file system\<close>

text \<open>
  A directory tree: a file holds bytes, a directory holds named entries.
\<close>

datatype node = File bytes | Dir "(string \<times> node) list"

fun lookup :: "node \<Rightarrow> path \<Rightarrow> error + node" where
  "lookup t [] = Inr t"
| "lookup (File b) (x # xs) = Inl ENOTDIR"
| "lookup (Dir es) (x # xs) =
     (case map_of es x of None \<Rightarrow> Inl ENOENT | Some c \<Rightarrow> lookup c xs)"

text \<open>
  \<open>put p v t\<close> sets (\<open>Some n\<close>) or deletes (\<open>None\<close>) the entry at \<open>p\<close>; it changes
  nothing when the parent of \<open>p\<close> is not a directory of \<open>t\<close>.
\<close>

fun put :: "path \<Rightarrow> node option \<Rightarrow> node \<Rightarrow> node" where
  "put [] v t = t"
| "put (x # xs) v (File b) = File b"
| "put [x] v (Dir es) =
     Dir (case v of None \<Rightarrow> AList.delete x es | Some n \<Rightarrow> AList.update x n es)"
| "put (x # y # ys) v (Dir es) =
     (case map_of es x of
        None \<Rightarrow> Dir es
      | Some c \<Rightarrow> Dir (AList.update x (put (y # ys) v c) es))"

definition names_of :: "(string \<times> node) list \<Rightarrow> string list" where
  "names_of es = remdups (map fst es)"

text \<open>mkdir(2).\<close>

definition fs_mkdir :: "path \<Rightarrow> node \<Rightarrow> error + node" where
  "fs_mkdir p t =
     (case lookup t (butlast p) of
        Inl e \<Rightarrow> Inl e
      | Inr (File b) \<Rightarrow> Inl ENOTDIR
      | Inr (Dir es) \<Rightarrow>
          (case lookup t p of
             Inr n \<Rightarrow> Inl EEXIST
           | Inl e \<Rightarrow> Inr (put p (Some (Dir [])) t)))"

text \<open>open(2) with O\_CREAT and O\_EXCL: a new empty file.\<close>

definition fs_create_excl :: "path \<Rightarrow> node \<Rightarrow> error + node" where
  "fs_create_excl p t =
     (case lookup t (butlast p) of
        Inl e \<Rightarrow> Inl e
      | Inr (File b) \<Rightarrow> Inl ENOTDIR
      | Inr (Dir es) \<Rightarrow>
          (case lookup t p of
             Inr n \<Rightarrow> Inl EEXIST
           | Inl e \<Rightarrow> Inr (put p (Some (File [])) t)))"

text \<open>
  rename(2): both parents are resolved first, then the source; a directory replaces
  only an empty directory, a file only a file; a directory cannot move below itself.
  os.Rename is this system call. (Later versions of the os package look at the
  destination first and answer EEXIST whenever it is a directory, also an empty one:
  a rename onto an existing directory that succeeds here fails there.)
  There are no links in the tree, symbolic or hard, and no permissions: what they would
  cause is among the failures of a \<open>tick\<close> below.
\<close>

definition fs_rename :: "path \<Rightarrow> path \<Rightarrow> node \<Rightarrow> error + node" where
  "fs_rename old new t =
     (if old = [] \<or> new = [] then Inl EBUSY
      else case lookup t (butlast old) of
        Inl e \<Rightarrow> Inl e
      | Inr (File b) \<Rightarrow> Inl ENOTDIR
      | Inr (Dir oes) \<Rightarrow>
     (case lookup t (butlast new) of
        Inl e \<Rightarrow> Inl e
      | Inr (File b) \<Rightarrow> Inl ENOTDIR
      | Inr (Dir nes) \<Rightarrow>
     (case map_of oes (last old) of
        None \<Rightarrow> Inl ENOENT
      | Some src \<Rightarrow>
          if old = new then Inr t
          else if prefix old new then Inl EINVAL
          else
            (case (src, map_of nes (last new)) of
               (_, None) \<Rightarrow> Inr (put new (Some src) (put old None t))
             | (Dir ses, Some (File b)) \<Rightarrow> Inl ENOTDIR
             | (File b, Some (Dir des)) \<Rightarrow> Inl EISDIR
             | (Dir ses, Some (Dir des)) \<Rightarrow>
                 if des \<noteq> [] then Inl ENOTEMPTY
                 else Inr (put new (Some src) (put old None t))
             | (File b, Some (File b')) \<Rightarrow> Inr (put new (Some src) (put old None t))))))"

text \<open>os.Remove: unlink(2), then rmdir(2): a file or an empty directory goes.\<close>

definition fs_remove :: "path \<Rightarrow> node \<Rightarrow> error + node" where
  "fs_remove p t =
     (if p = [] then Inl EBUSY
      else case lookup t (butlast p) of
        Inl e \<Rightarrow> Inl e
      | Inr (File b) \<Rightarrow> Inl ENOTDIR
      | Inr (Dir es) \<Rightarrow>
          (case map_of es (last p) of
             None \<Rightarrow> Inl ENOENT
           | Some (File b) \<Rightarrow> Inr (put p None t)
           | Some (Dir des) \<Rightarrow> if des = [] then Inr (put p None t) else Inl ENOTEMPTY))"

definition fs_readdirnames :: "path \<Rightarrow> node \<Rightarrow> error + string list" where
  "fs_readdirnames p t =
     (case lookup t p of
        Inl e \<Rightarrow> Inl e
      | Inr (File b) \<Rightarrow> Inl ENOTDIR
      | Inr (Dir es) \<Rightarrow> Inr (names_of es))"

definition fs_readfile :: "path \<Rightarrow> node \<Rightarrow> error + bytes" where
  "fs_readfile p t =
     (case lookup t p of
        Inl e \<Rightarrow> Inl e
      | Inr (Dir es) \<Rightarrow> Inl EISDIR
      | Inr (File b) \<Rightarrow> Inr b)"

text \<open>write(2) through an open handle, named here by its path: the bytes are appended.\<close>

definition fs_append :: "path \<Rightarrow> bytes \<Rightarrow> node \<Rightarrow> node" where
  "fs_append p d t =
     (case lookup t p of Inr (File b) \<Rightarrow> put p (Some (File (b @ d))) t | _ \<Rightarrow> t)"

section \<open>The world a process runs in\<close>

text \<open>
  System calls of other processes on the same file system; each fails or succeeds as
  the process's own calls do, and a failed one changes nothing.
\<close>

datatype envop =
    EnvMkdir path
  | EnvRename path path
  | EnvRemove path
  | EnvCreate path
  | EnvAppend path bytes

definition or_same :: "node \<Rightarrow> error + node \<Rightarrow> node" where
  "or_same t r = (case r of Inl e \<Rightarrow> t | Inr t' \<Rightarrow> t')"

fun env_apply :: "node \<Rightarrow> envop \<Rightarrow> node" where
  "env_apply t (EnvMkdir p) = or_same t (fs_mkdir p t)"
| "env_apply t (EnvRename p p') = or_same t (fs_rename p p' t)"
| "env_apply t (EnvRemove p) = or_same t (fs_remove p t)"
| "env_apply t (EnvCreate p) = or_same t (fs_create_excl p t)"
| "env_apply t (EnvAppend p d) = fs_append p d t"

text \<open>
  What happens around one system call of this process: the calls other processes
  complete just before it, a failure the file system's state does not explain
  (permissions, the disk, the device), and how far a failing read or write got.
\<close>

record tick =
  others :: "envop list"
  fault :: "error option"
  short :: nat

datatype logline =
    LogCouldNotRescue path
  | LogNotAPid string error
  | LogKillFailed int error
  | LogGoneAway int
  | LogRmdirFailed path error
  | LogCouldNotRescueFrom int path
  | LogRescheduleFailed string int error
  | LogRescheduled string int
  | LogRenameFailed path path

record world =
  fs :: node
  sched :: "tick list"
  rands :: "nat list"
  suffixes :: "nat list"
  procs :: "int \<Rightarrow> error option"
  getpid :: int
  logged :: "logline list"

definition begin_call :: "world \<Rightarrow> tick \<times> world" where
  "begin_call w =
     (case sched w of
        [] \<Rightarrow> (\<lparr>others = [], fault = None, short = 0\<rparr>, w)
      | t # ts \<Rightarrow> (t, w\<lparr>fs := foldl env_apply (fs w) (others t), sched := ts\<rparr>))"

text \<open>A system call that changes the tree or fails.\<close>

definition syscall :: "(node \<Rightarrow> error + node) \<Rightarrow> world \<Rightarrow> error option \<times> world" where
  "syscall f w =
     (let (t, w1) = begin_call w in
      case fault t of
        Some e \<Rightarrow> (Some e, w1)
      | None \<Rightarrow>
          (case f (fs w1) of
             Inl e \<Rightarrow> (Some e, w1)
           | Inr t' \<Rightarrow> (None, w1\<lparr>fs := t'\<rparr>)))"

definition os_Mkdir :: "path \<Rightarrow> world \<Rightarrow> error option \<times> world" where
  "os_Mkdir p w = syscall (fs_mkdir p) w"

definition os_Rename :: "path \<Rightarrow> path \<Rightarrow> world \<Rightarrow> error option \<times> world" where
  "os_Rename old new w = syscall (fs_rename old new) w"

definition os_Remove :: "path \<Rightarrow> world \<Rightarrow> error option \<times> world" where
  "os_Remove p w = syscall (fs_remove p) w"

text \<open>os.Open for reading: the handle is the path it was opened at.\<close>

definition os_Open :: "path \<Rightarrow> world \<Rightarrow> (error + path) \<times> world" where
  "os_Open p w =
     (let (t, w1) = begin_call w in
      case fault t of
        Some e \<Rightarrow> (Inl e, w1)
      | None \<Rightarrow> (case lookup (fs w1) p of Inl e \<Rightarrow> (Inl e, w1) | Inr n \<Rightarrow> (Inr p, w1)))"

text \<open>
  File.Readdirnames(-1): all the names, or the names read before an error and the error.
\<close>

definition File_Readdirnames :: "path \<Rightarrow> world \<Rightarrow> (string list \<times> error option) \<times> world" where
  "File_Readdirnames h w =
     (let (t, w1) = begin_call w in
      case fs_readdirnames h (fs w1) of
        Inl e \<Rightarrow> (([], Some (case fault t of Some e' \<Rightarrow> e' | None \<Rightarrow> e)), w1)
      | Inr names \<Rightarrow>
          (case fault t of
             Some e \<Rightarrow> ((take (short t) names, Some e), w1)
           | None \<Rightarrow> ((names, None), w1)))"

text \<open>ioutil.ReadFile: the content, or what was read before an error and the error.\<close>

definition ioutil_ReadFile :: "path \<Rightarrow> world \<Rightarrow> (bytes \<times> error option) \<times> world" where
  "ioutil_ReadFile p w =
     (let (t, w1) = begin_call w in
      case fs_readfile p (fs w1) of
        Inl e \<Rightarrow> (([], Some (case fault t of Some e' \<Rightarrow> e' | None \<Rightarrow> e)), w1)
      | Inr b \<Rightarrow>
          (case fault t of
             Some e \<Rightarrow> ((take (short t) b, Some e), w1)
           | None \<Rightarrow> ((b, None), w1)))"

text \<open>
  ioutil.TempDir and ioutil.TempFile: the name is the prefix and a random suffix; a name
  that is taken is tried again with the next suffix, any other failure is returned. The
  suffix is a random number in decimal, taken from the world's supply.
\<close>

fun TempDir_try :: "nat list \<Rightarrow> path \<Rightarrow> string \<Rightarrow> world \<Rightarrow> (error + path) \<times> world" where
  "TempDir_try [] d pre w = (Inl EEXIST, w)"
| "TempDir_try (r # rs) d pre w =
     (let try = pjoin d [pre @ digits10 r] in
      case os_Mkdir try (w\<lparr>suffixes := rs\<rparr>) of
        (Some e, w1) \<Rightarrow> if os_IsExist e then TempDir_try rs d pre w1 else (Inl e, w1)
      | (None, w1) \<Rightarrow> (Inr try, w1))"

definition ioutil_TempDir :: "path \<Rightarrow> string \<Rightarrow> world \<Rightarrow> (error + path) \<times> world" where
  "ioutil_TempDir d pre w = TempDir_try (suffixes w) d pre w"

fun TempFile_try :: "nat list \<Rightarrow> path \<Rightarrow> string \<Rightarrow> world \<Rightarrow> (error + path) \<times> world" where
  "TempFile_try [] d pre w = (Inl EEXIST, w)"
| "TempFile_try (r # rs) d pre w =
     (let name = pjoin d [pre @ digits10 r] in
      case syscall (fs_create_excl name) (w\<lparr>suffixes := rs\<rparr>) of
        (Some e, w1) \<Rightarrow> if os_IsExist e then TempFile_try rs d pre w1 else (Inl e, w1)
      | (None, w1) \<Rightarrow> (Inr name, w1))"

definition ioutil_TempFile :: "path \<Rightarrow> string \<Rightarrow> world \<Rightarrow> (error + path) \<times> world" where
  "ioutil_TempFile d pre w = TempFile_try (suffixes w) d pre w"

text \<open>
  File.Write: on a failure, only the first bytes may have reached the file. File.Close
  changes no file.
\<close>

definition File_Write :: "path \<Rightarrow> bytes \<Rightarrow> world \<Rightarrow> error option \<times> world" where
  "File_Write f d w =
     (let (t, w1) = begin_call w in
      case fault t of
        Some e \<Rightarrow> (Some e, w1\<lparr>fs := fs_append f (take (short t) d) (fs w1)\<rparr>)
      | None \<Rightarrow> (None, w1\<lparr>fs := fs_append f d (fs w1)\<rparr>))"

definition File_Close :: "path \<Rightarrow> world \<Rightarrow> error option \<times> world" where
  "File_Close f w = (let (t, w1) = begin_call w in (fault t, w1))"

text \<open>syscall.Kill(pid, 0) asks the process table; nothing is sent.\<close>

definition syscall_Kill0 :: "int \<Rightarrow> world \<Rightarrow> error option" where
  "syscall_Kill0 p w = procs w p"

text \<open>rand.Intn(n) for n > 0: the next random number, below n.\<close>

definition rand_Intn :: "nat \<Rightarrow> world \<Rightarrow> nat \<times> world" where
  "rand_Intn n w =
     (case rands w of [] \<Rightarrow> (0, w) | r # rs \<Rightarrow> (r mod n, w\<lparr>rands := rs\<rparr>))"

definition log_line :: "logline \<Rightarrow> world \<Rightarrow> world" where
  "log_line l w = w\<lparr>logged := logged w @ [l]\<rparr>"

section \<open>pqueue.go\<close>

record Queue =
  basedir :: string
  mycurdir :: string

record Job =
  Basename :: string
  dir :: path
  job_q :: Queue

text \<open>
  The package variable \<^verbatim>\<open>mycur\<close>: path.Join of "cur" and the decimal process id, a
  string of two clean components.
\<close>

definition mycur :: "world \<Rightarrow> string" where
  "mycur w = ''cur'' @ ''/'' @ Itoa (getpid w)"

definition ensuredir :: "string list \<Rightarrow> world \<Rightarrow> error option \<times> world" where
  "ensuredir parts w =
     (case os_Mkdir (path_Join parts) w of
        (Some err, w') \<Rightarrow> if os_IsExist err then (None, w') else (Some err, w')
      | (None, w') \<Rightarrow> (None, w'))"

definition readdirnames :: "path \<Rightarrow> world \<Rightarrow> (string list \<times> error option) \<times> world" where
  "readdirnames d w =
     (case os_Open d w of
        (Inl err, w') \<Rightarrow> (([], Some err), w')
      | (Inr h, w') \<Rightarrow> File_Readdirnames h w')"

definition processExists :: "int \<Rightarrow> world \<Rightarrow> (bool \<times> error option) \<times> world" where
  "processExists p w =
     (case syscall_Kill0 p w of
        Some err \<Rightarrow>
          if err = ESRCH then ((False, None), w)
          else ((False, Some err), log_line (LogKillFailed p err) w)
      | None \<Rightarrow> ((True, None), w))"

text \<open>The loop of OpenQueue over the directories to ensure.\<close>

fun ensure_each :: "string \<Rightarrow> string list \<Rightarrow> world \<Rightarrow> error option \<times> world" where
  "ensure_each b [] w = (None, w)"
| "ensure_each b (d # ds) w =
     (case ensuredir [b, d] w of
        (Some err, w') \<Rightarrow> (Some err, w')
      | (None, w') \<Rightarrow> ensure_each b ds w')"

definition OpenQueue :: "string \<Rightarrow> world \<Rightarrow> (error + Queue) \<times> world" where
  "OpenQueue d w =
     (case ensure_each d [''tmp'', ''new'', ''cur'', ''done'', ''failed'', mycur w] w of
        (Some err, w') \<Rightarrow> (Inl err, w')
      | (None, w') \<Rightarrow> (Inr \<lparr>basedir = d, mycurdir = []\<rparr>, w'))"

definition CreateJob :: "Queue \<Rightarrow> string \<Rightarrow> world \<Rightarrow> (error + Job) \<times> world" where
  "CreateJob qu pre w =
     (case ioutil_TempDir (path_Join [basedir qu, ''tmp'']) pre w of
        (Inl err, w') \<Rightarrow> (Inl err, w')
      | (Inr tmp, w') \<Rightarrow> (Inr \<lparr>Basename = path_Base tmp, dir = tmp, job_q = qu\<rparr>, w'))"

text \<open>
  Submit, Finish and Fail change the job in place; here they return the job as it is
  after the call.
\<close>

definition Submit :: "Job \<Rightarrow> world \<Rightarrow> error option \<times> Job \<times> world" where
  "Submit job w =
     (let d = path_Join [basedir (job_q job), ''new'', Basename job] in
      case os_Rename (dir job) d w of
        (Some err, w') \<Rightarrow> (Some err, job, w')
      | (None, w') \<Rightarrow> (None, job\<lparr>dir := d\<rparr>, w'))"

text \<open>One turn of the loop of Take: it returns, or goes round again.\<close>

datatype take_step = Retry world | Done "Job option" "error option" world

definition Take_body :: "Queue \<Rightarrow> world \<Rightarrow> take_step" where
  "Take_body qu w =
     (case readdirnames (path_Join [basedir qu, ''new'']) w of
        ((names, Some err), w1) \<Rightarrow> Done None (Some err) w1
      | ((names, None), w1) \<Rightarrow>
          if length names = 0 then Done None None w1
          else
            (let (i, w2) = rand_Intn (length names) w1;
                 basename = names ! i;
                 d = path_Join [basedir qu, mycur w2, basename]
             in case os_Rename (path_Join [basedir qu, ''new'', basename]) d w2 of
                  (Some err, w3) \<Rightarrow>
                    if os_IsNotExist err then Retry w3 else Done None (Some err) w3
                | (None, w3) \<Rightarrow>
                    Done (Some \<lparr>Basename = basename, dir = d, job_q = qu\<rparr>) None w3))"

partial_function (option) Take :: "Queue \<Rightarrow> world \<Rightarrow> ((Job option \<times> error option) \<times> world) option" where
  "Take qu w =
     (case Take_body qu w of
        Retry w' \<Rightarrow> Take qu w'
      | Done j err w' \<Rightarrow> Some ((j, err), w'))"

definition Finish :: "Job \<Rightarrow> world \<Rightarrow> error option \<times> Job \<times> world" where
  "Finish job w =
     (let d = path_Join [basedir (job_q job), ''done'', Basename job] in
      case os_Rename (dir job) d w of
        (Some err, w') \<Rightarrow> (Some err, job, w')
      | (None, w') \<Rightarrow> (None, job\<lparr>dir := d\<rparr>, w'))"

definition Fail :: "Job \<Rightarrow> world \<Rightarrow> error option \<times> Job \<times> world" where
  "Fail job w =
     (let d = path_Join [basedir (job_q job), ''failed'', Basename job] in
      case os_Rename (dir job) d w of
        (Some err, w') \<Rightarrow> (Some err, job, w')
      | (None, w') \<Rightarrow> (None, job\<lparr>dir := d\<rparr>, w'))"

definition getNewDir :: "Queue \<Rightarrow> path" where
  "getNewDir qu = path_Join [basedir qu, ''new'']"

definition getCurDir :: "Queue \<Rightarrow> path" where
  "getCurDir qu = path_Join [basedir qu, ''cur'']"

definition getWorkerDir :: "Queue \<Rightarrow> int \<Rightarrow> path" where
  "getWorkerDir qu p = path_Join [basedir qu, ''cur'', Itoa p]"

text \<open>The body of the loop of rescueDeadJobsFrom, for the entry \<open>s\<close> of the slot.\<close>

definition reschedule :: "Queue \<Rightarrow> int \<Rightarrow> path \<Rightarrow> world \<Rightarrow> string \<Rightarrow> world" where
  "reschedule qu p d w s =
     (case os_Rename (pjoin d [s]) (pjoin (getNewDir qu) [s]) w of
        (Some err, w') \<Rightarrow> log_line (LogRescheduleFailed s p err) w'
      | (None, w') \<Rightarrow> log_line (LogRescheduled s p) w')"

definition rescueDeadJobsFrom :: "Queue \<Rightarrow> int \<Rightarrow> world \<Rightarrow> world" where
  "rescueDeadJobsFrom qu p w =
     (let d = getWorkerDir qu p in
      case readdirnames d w of
        ((names, err), w1) \<Rightarrow>
          foldl (reschedule qu p d)
            (case err of Some e \<Rightarrow> log_line (LogCouldNotRescueFrom p d) w1 | None \<Rightarrow> w1)
            names)"

text \<open>The body of the loop of RescueDeadJobs, for the entry \<open>s\<close> of cur.\<close>

definition rescue_entry :: "Queue \<Rightarrow> world \<Rightarrow> string \<Rightarrow> world" where
  "rescue_entry qu w s =
     (case Atoi s of
        Inl err \<Rightarrow> log_line (LogNotAPid s err) w
      | Inr p \<Rightarrow>
          (case processExists p w of
             ((exists, Some err), w1) \<Rightarrow> log_line (LogKillFailed p err) w1
           | ((exists, None), w1) \<Rightarrow>
               if \<not> exists then
                 (let w2 = log_line (LogGoneAway p) w1;
                      w3 = rescueDeadJobsFrom qu p w2
                  in case os_Remove (getWorkerDir qu p) w3 of
                       (Some err, w4) \<Rightarrow> log_line (LogRmdirFailed (getWorkerDir qu p) err) w4
                     | (None, w4) \<Rightarrow> w4)
               else w1))"

definition RescueDeadJobs :: "Queue \<Rightarrow> world \<Rightarrow> error option \<times> world" where
  "RescueDeadJobs qu w =
     (let curdir = getCurDir qu in
      case readdirnames curdir w of
        ((names, Some err), w1) \<Rightarrow> (Some err, log_line (LogCouldNotRescue curdir) w1)
      | ((names, None), w1) \<Rightarrow> (None, foldl (rescue_entry qu) w1 names))"

definition Get :: "Job \<Rightarrow> string \<Rightarrow> world \<Rightarrow> (bytes \<times> error option) \<times> world" where
  "Get j name w = ioutil_ReadFile (pjoin (dir j) [name]) w"

definition Set :: "Job \<Rightarrow> string \<Rightarrow> bytes \<Rightarrow> world \<Rightarrow> error option \<times> world" where
  "Set j name data w =
     (let qu = job_q j in
      case ioutil_TempFile (path_Join [basedir qu, ''tmp'']) name w of
        (Inl err, w1) \<Rightarrow> (Some err, w1)
      | (Inr f, w1) \<Rightarrow>
          (case File_Write f data w1 of
             (Some err, w2) \<Rightarrow> (Some err, w2)
           | (None, w2) \<Rightarrow>
               (let fn = f in
                case File_Close f w2 of
                  (Some err, w3) \<Rightarrow> (Some err, w3)
                | (None, w3) \<Rightarrow>
                    (let newfn = pjoin (dir j) [name] in
                     case os_Rename fn newfn w3 of
                       (Some err, w4) \<Rightarrow> (Some err, log_line (LogRenameFailed fn newfn) w4)
                     | (None, w4) \<Rightarrow> (None, w4)))))"

section \<open>Notions the theorems use\<close>

text \<open>The result of a lookup is a directory.\<close>

definition is_dir :: "error + node \<Rightarrow> bool" where
  "is_dir r = (case r of Inr (Dir es) \<Rightarrow> True | _ \<Rightarrow> False)"

text \<open>
  The tree the next system call of this process finds: the tree after the calls other
  processes complete before it.
\<close>

definition tree_at_call :: "world \<Rightarrow> node" where
  "tree_at_call w = fs (snd (begin_call w))"

text \<open>No other process acts while this one runs; system calls may still fail.\<close>

definition alone :: "world \<Rightarrow> bool" where
  "alone w = list_all (\<lambda>t. others t = []) (sched w)"

text \<open>
  Entry names as a file system has them: not empty, without a slash, neither dot nor
  dot-dot.
\<close>

fun names_ok :: "node \<Rightarrow> bool" where
  "names_ok (File b) = True"
| "names_ok (Dir es) = list_all (\<lambda>(x, n). valid_name x \<and> names_ok n) es"

section \<open>Where a job is\<close>

text \<open>
  A job created in staging: its directory is the entry of \<^verbatim>\<open>tmp\<close> that its id names.
\<close>

definition in_staging :: "Job \<Rightarrow> bool" where
  "in_staging job =
     (valid_name (Basename job) \<and>
      dir job = path_Join [basedir (job_q job), ''tmp''] @ [Basename job])"

text \<open>
  A job held in the caller's owner slot: its directory is the entry of the slot of this
  process that its id names.
\<close>

definition held :: "Job \<Rightarrow> world \<Rightarrow> bool" where
  "held job w =
     (valid_name (Basename job) \<and>
      dir job = getWorkerDir (job_q job) (getpid w) @ [Basename job])"

section \<open>Opening a queue\<close>

text \<open>The six directories OpenQueue ensures, in its order.\<close>

definition queue_dirs :: "string \<Rightarrow> world \<Rightarrow> path list" where
  "queue_dirs d w =
     map (\<lambda>x. path_Join [d, x]) [''tmp'', ''new'', ''cur'', ''done'', ''failed'', mycur w]"

text \<open>The path is not taken by a file: nothing is there, or a directory.\<close>

definition free_or_dir :: "node \<Rightarrow> path \<Rightarrow> bool" where
  "free_or_dir t p = (case lookup t p of Inr (File b) \<Rightarrow> False | _ \<Rightarrow> True)"

text \<open>The tree after mkdir of a path, made or not.\<close>

definition ensured :: "node \<Rightarrow> path \<Rightarrow> node" where
  "ensured t p = or_same t (fs_mkdir p t)"

text \<open>Each path of the list has a directory as its parent when its turn comes.\<close>

fun parents_ready :: "node \<Rightarrow> path list \<Rightarrow> bool" where
  "parents_ready t [] = True"
| "parents_ready t (p # ps) =
     (p \<noteq> [] \<and> is_dir (lookup t (butlast p)) \<and> parents_ready (ensured t p) ps)"

section \<open>What a rescue may change\<close>

text \<open>
  The trees \<open>t\<close> and \<open>t'\<close> differ only by entries moved out of the directory \<open>d\<close> into
  the directory \<open>nw\<close> and by \<open>d\<close> itself being removed: paths apart from both are as
  they were, \<open>d\<close> has gained no entry, \<open>nw\<close> is as it was below every name that \<open>d\<close> did
  not hold, \<open>nw\<close> is still a directory, and nothing changed if \<open>d\<close> was not there.
\<close>

definition within :: "path \<Rightarrow> path \<Rightarrow> node \<Rightarrow> node \<Rightarrow> bool" where
  "within d nw t t' =
     ((\<forall>q. \<not> prefix d q \<and> \<not> prefix q d \<and> \<not> prefix nw q \<and> \<not> prefix q nw \<longrightarrow>
           lookup t' q = lookup t q)
    \<and> (\<forall>y n. lookup t' (d @ [y]) = Inr n \<longrightarrow> (\<exists>m. lookup t (d @ [y]) = Inr m))
    \<and> (\<forall>y r. (\<forall>m. lookup t (d @ [y]) \<noteq> Inr m) \<longrightarrow>
           lookup t' (nw @ y # r) = lookup t (nw @ y # r))
    \<and> (is_dir (lookup t nw) \<longrightarrow> is_dir (lookup t' nw))
    \<and> (\<forall>e. lookup t d = Inl e \<longrightarrow> t' = t))"

text \<open>Every entry of every owner slot has a name a file system allows.\<close>

definition slot_names_ok :: "path \<Rightarrow> node \<Rightarrow> bool" where
  "slot_names_ok c t = (\<forall>s x n. lookup t (c @ [s, x]) = Inr n \<longrightarrow> valid_name x)"

text \<open>
  The states of one owner slot \<open>s\<close> of the queue at \<open>B\<close>, with the entries \<open>jes\<close>, during
  a sweep: its jobs are still in it and \<^verbatim>\<open>new\<close> has none of their names; or the slot is
  gone and each of its jobs is in \<^verbatim>\<open>new\<close>. No other slot holds an entry named as one of
  the jobs.
\<close>

definition pending :: "path \<Rightarrow> string \<Rightarrow> (string \<times> node) list \<Rightarrow> node \<Rightarrow> bool" where
  "pending B s jes t =
     (lookup t (B @ [''cur'', s]) = Inr (Dir jes) \<and> is_dir (lookup t (B @ [''new''])) \<and>
      (\<forall>x \<in> set (names_of jes). lookup t (B @ [''new'', x]) = Inl ENOENT))"

definition rescued :: "path \<Rightarrow> string \<Rightarrow> (string \<times> node) list \<Rightarrow> node \<Rightarrow> bool" where
  "rescued B s jes t =
     (lookup t (B @ [''cur'', s]) = Inl ENOENT \<and>
      (\<forall>x n. map_of jes x = Some n \<longrightarrow> lookup t (B @ [''new'', x]) = Inr n))"

definition no_namesakes :: "path \<Rightarrow> string \<Rightarrow> (string \<times> node) list \<Rightarrow> node \<Rightarrow> bool" where
  "no_namesakes B s jes t =
     (\<forall>s' x. s' \<noteq> s \<and> x \<in> set (names_of jes) \<longrightarrow> (\<forall>n. lookup t (B @ [''cur'', s', x]) \<noteq> Inr n))"

section \<open>Example worlds\<close>

text \<open>
  A queue at \<^verbatim>\<open>/q\<close>, opened by process 4242. Process 1 exists but may not be
  signalled; no other process exists.
\<close>

definition ex_queue :: Queue where
  "ex_queue = \<lparr>basedir = ''q'', mycurdir = []\<rparr>"

definition ex_procs :: "int \<Rightarrow> error option" where
  "ex_procs p = (if p = 4242 then None else if p = 1 then Some EPERM else Some ESRCH)"

definition ex_world :: "node \<Rightarrow> tick list \<Rightarrow> world" where
  "ex_world t sc =
     \<lparr>fs = t, sched = sc, rands = [], suffixes = [7], procs = ex_procs, getpid = 4242,
      logged = []\<rparr>"

definition fresh_tree :: node where
  "fresh_tree =
     Dir [(''q'', Dir [(''tmp'', Dir []), (''new'', Dir []), (''cur'', Dir [(''4242'', Dir [])]),
                      (''done'', Dir []), (''failed'', Dir [])])]"

text \<open>A job handle for a directory that is not there.\<close>

definition lost_job :: Job where
  "lost_job = \<lparr>Basename = ''job7'', dir = [''q'', ''tmp'', ''job7''], job_q = ex_queue\<rparr>"

text \<open>A queue whose owner slot for process 4242 is missing, with one job to take.\<close>

definition slotless_tree :: node where
  "slotless_tree =
     Dir [(''q'', Dir [(''tmp'', Dir []), (''new'', Dir [(''X'', Dir [])]), (''cur'', Dir []),
                      (''done'', Dir []), (''failed'', Dir [])])]"

text \<open>
  Two workers, 4242 and 7, and one job to take; worker 7 takes it between the listing
  and the rename of worker 4242.
\<close>

definition raced_tree :: node where
  "raced_tree =
     Dir [(''q'', Dir [(''tmp'', Dir []), (''new'', Dir [(''X'', Dir [])]),
                      (''cur'', Dir [(''4242'', Dir []), (''7'', Dir [])]),
                      (''done'', Dir []), (''failed'', Dir [])])]"

definition raced_tree_after :: node where
  "raced_tree_after =
     Dir [(''q'', Dir [(''tmp'', Dir []), (''new'', Dir []),
                      (''cur'', Dir [(''4242'', Dir []), (''7'', Dir [(''X'', Dir [])])]),
                      (''done'', Dir []), (''failed'', Dir [])])]"

definition quiet_tick :: tick where
  "quiet_tick = \<lparr>others = [], fault = None, short = 0\<rparr>"

definition raced_sched :: "tick list" where
  "raced_sched =
     [quiet_tick, quiet_tick,
      \<lparr>others = [EnvRename [''q'', ''new'', ''X''] [''q'', ''cur'', ''7'', ''X'']],
       fault = None, short = 0\<rparr>]"

text \<open>
  The life of one job: created by CreateJob with the prefix \<^verbatim>\<open>build\<close> and the random
  suffix 7, submitted, taken by process 4242, finished or failed.
\<close>

definition queue_tree :: "(string \<times> node) list \<Rightarrow> (string \<times> node) list \<Rightarrow> (string \<times> node) list
    \<Rightarrow> (string \<times> node) list \<Rightarrow> (string \<times> node) list \<Rightarrow> node" where
  "queue_tree t n c d f =
     Dir [(''q'', Dir [(''tmp'', Dir t), (''new'', Dir n), (''cur'', Dir c), (''done'', Dir d),
                      (''failed'', Dir f)])]"

definition the_job :: "(string \<times> node) list" where
  "the_job = [(''build7'', Dir [])]"

definition tree_created :: node where
  "tree_created = queue_tree the_job [] [(''4242'', Dir [])] [] []"

definition tree_submitted :: node where
  "tree_submitted = queue_tree [] the_job [(''4242'', Dir [])] [] []"

definition tree_taken :: node where
  "tree_taken = queue_tree [] [] [(''4242'', Dir the_job)] [] []"

definition tree_done :: node where
  "tree_done = queue_tree [] [] [(''4242'', Dir [])] the_job []"

definition tree_failed :: node where
  "tree_failed = queue_tree [] [] [(''4242'', Dir [])] [] the_job"

definition job_at :: "path \<Rightarrow> Job" where
  "job_at d = \<lparr>Basename = ''build7'', dir = d @ [''build7''], job_q = ex_queue\<rparr>"

definition used_world :: "node \<Rightarrow> world" where
  "used_world t = (ex_world t [])\<lparr>suffixes := []\<rparr>"

text \<open>
  The job in staging with one property, \<^verbatim>\<open>state\<close>; a world with random suffixes to
  draw and with a schedule of faults.
\<close>

definition tree_with_value :: "bytes \<Rightarrow> node" where
  "tree_with_value v =
     queue_tree [(''build7'', Dir [(''state'', File v)])] [] [(''4242'', Dir [])] [] []"

definition supply_world :: "node \<Rightarrow> nat list \<Rightarrow> tick list \<Rightarrow> world" where
  "supply_world t sfx sc = (ex_world t sc)\<lparr>suffixes := sfx\<rparr>"

definition fault_tick :: "error \<Rightarrow> nat \<Rightarrow> tick" where
  "fault_tick e n = \<lparr>others = [], fault = Some e, short = n\<rparr>"

text \<open>The same tree with the temporary file a failed Set has left in \<^verbatim>\<open>tmp\<close>.\<close>

definition tmp_left :: "bytes \<Rightarrow> node" where
  "tmp_left b =
     queue_tree [(''build7'', Dir [(''state'', File ''old'')]), (''state7'', File b)] []
       [(''4242'', Dir [])] [] []"

text \<open>
  Roots to open: an empty directory; one where \<^verbatim>\<open>cur\<close> is a file; one where \<^verbatim>\<open>new\<close>
  is a file.
\<close>

definition empty_root :: node where
  "empty_root = Dir [(''q'', Dir [])]"

definition root_with_file_cur :: node where
  "root_with_file_cur = Dir [(''q'', Dir [(''cur'', File ''x'')])]"

definition root_with_file_new :: node where
  "root_with_file_new = Dir [(''q'', Dir [(''new'', File ''x'')])]"

definition opened_with_file_new :: node where
  "opened_with_file_new =
     Dir [(''q'', Dir [(''new'', File ''x''), (''tmp'', Dir []), (''cur'', Dir [(''4242'', Dir [])]),
                      (''done'', Dir []), (''failed'', Dir [])])]"

text \<open>
  A sweep: the owner 424242 is dead and held the job \<^verbatim>\<open>foo\<close>, the owner 4242 is alive
  and holds \<^verbatim>\<open>bar\<close>, the owner 1 cannot be probed and holds \<^verbatim>\<open>baz\<close>.
\<close>

definition sweep_tree :: node where
  "sweep_tree =
     queue_tree [] []
       [(''424242'', Dir [(''foo'', Dir [(''state'', File ''s'')])]),
        (''4242'', Dir [(''bar'', Dir [])]),
        (''1'', Dir [(''baz'', Dir [])])] [] []"

definition swept_tree :: node where
  "swept_tree =
     queue_tree [] [(''foo'', Dir [(''state'', File ''s'')])]
       [(''4242'', Dir [(''bar'', Dir [])]), (''1'', Dir [(''baz'', Dir [])])] [] []"

definition swept_log :: "logline list" where
  "swept_log =
     [LogGoneAway 424242, LogRescheduled ''foo'' 424242, LogKillFailed 1 EPERM,
      LogKillFailed 1 EPERM]"

text \<open>
  A sweep over a slot whose name is not the decimal form Itoa writes: process 7 is dead,
  the slot is named \<^verbatim>\<open>007\<close>.
\<close>

definition padded_tree :: node where
  "padded_tree = queue_tree [] [] [(''007'', Dir [(''foo'', Dir [])])] [] []"

definition padded_log :: "logline list" where
  "padded_log =
     [LogGoneAway 7, LogCouldNotRescueFrom 7 [''q'', ''cur'', ''7''],
      LogRmdirFailed [''q'', ''cur'', ''7''] ENOENT]"

section \<open>Lemmas: paths and decimal strings\<close>

lemma split_slash_noslash: "CHR ''/'' \<notin> set s \<Longrightarrow> split_slash s = [s]"
  by (induction s) auto

lemma split_slash_slash:
  "CHR ''/'' \<notin> set a \<Longrightarrow> split_slash (a @ CHR ''/'' # b) = a # split_slash b"
  by (induction a) auto

lemma pjoin_Nil: "pjoin p [] = p"
  by (simp add: pjoin_def)

lemma pjoin_append: "pjoin p (ss @ ts) = pjoin (pjoin p ss) ts"
  by (simp add: pjoin_def)

lemma pjoin_valid: "valid_name s \<Longrightarrow> pjoin p (s # ss) = pjoin (p @ [s]) ss"
  by (simp add: pjoin_def valid_name_def split_slash_noslash clean_step_def)

lemma pjoin_valid1: "valid_name s \<Longrightarrow> pjoin p [s] = p @ [s]"
  by (simp add: pjoin_valid pjoin_Nil)

lemma path_Join_Cons: "path_Join (b # ss) = pjoin (path_Join [b]) ss"
  by (simp add: path_Join_def pjoin_def)

lemma digit_chars_nth: "n < 10 \<Longrightarrow> digit_val (digit_chars ! n) = Some n"
proof -
  assume "n < 10"
  then have "n \<in> {0, 1, 2, 3, 4, 5, 6, 7, 8, 9}" by auto
  then show ?thesis
    by (elim insertE emptyE) (simp_all add: digit_val_def digit_chars_def)
qed

lemma index_of_Some_mem: "index_of x ys = Some i \<Longrightarrow> x \<in> set ys"
  by (induction ys arbitrary: i) (auto split: if_splits)

lemma index_of_mem: "x \<in> set ys \<Longrightarrow> \<exists>i. index_of x ys = Some i"
  by (induction ys) auto

lemma digit_val_digit: "c \<in> set digit_chars \<Longrightarrow> digit_val c \<noteq> None"
  using index_of_mem[of c digit_chars] by (auto simp: digit_val_def)

lemma digits10_nonempty: "digits10 n \<noteq> []"
  by (subst digits10.simps) simp

lemma digits10_set: "set (digits10 n) \<subseteq> set digit_chars"
proof (induction n rule: digits10.induct)
  case (1 n)
  have a: "digit_chars ! n \<in> set digit_chars" if "n < 10"
    using that by (intro nth_mem) (simp add: digit_chars_def)
  have b: "digit_chars ! (n mod 10) \<in> set digit_chars"
    by (intro nth_mem) (simp add: digit_chars_def)
  show ?case
    using 1 a b by (subst digits10.simps) auto
qed

lemma digits10_valid: "valid_name (digits10 n)"
proof -
  have s: "set (digits10 n) \<subseteq> set digit_chars" by (rule digits10_set)
  have "CHR ''/'' \<notin> set digit_chars" "CHR ''.'' \<notin> set digit_chars"
    by (simp_all add: digit_chars_def)
  with s have "CHR ''/'' \<notin> set (digits10 n)" "CHR ''.'' \<notin> set (digits10 n)" by auto
  then show ?thesis
    using digits10_nonempty[of n] by (auto simp: valid_name_def)
qed

lemma Itoa_valid: "valid_name (Itoa i)"
proof (cases "i < 0")
  case False
  then show ?thesis by (simp add: Itoa_def digits10_valid)
next
  case True
  have s: "set (digits10 (nat (- i))) \<subseteq> set digit_chars" by (rule digits10_set)
  have "CHR ''/'' \<notin> set digit_chars" by (simp add: digit_chars_def)
  with s have "CHR ''/'' \<notin> set (digits10 (nat (- i)))" by auto
  with True show ?thesis by (simp add: Itoa_def valid_name_def)
qed

lemma parse_digits_append:
  "parse_digits a (xs @ ys) =
     (case parse_digits a xs of None \<Rightarrow> None | Some b \<Rightarrow> parse_digits b ys)"
  by (induction xs arbitrary: a) (auto split: option.splits)

lemma parse_digits10: "parse_digits 0 (digits10 n) = Some n"
proof (induction n rule: digits10.induct)
  case (1 n)
  show ?case
  proof (cases "n < 10")
    case True
    then show ?thesis by (subst digits10.simps) (simp add: digit_chars_nth)
  next
    case False
    have "n mod 10 < 10" by simp
    then have d: "digit_val (digit_chars ! (n mod 10)) = Some (n mod 10)"
      by (rule digit_chars_nth)
    from False 1 have ih: "parse_digits 0 (digits10 (n div 10)) = Some (n div 10)" by simp
    show ?thesis
      using False by (subst digits10.simps) (simp add: parse_digits_append ih d)
  qed
qed

lemma digits10_hd: "digits10 n = c # cs \<Longrightarrow> c \<noteq> CHR ''+'' \<and> c \<noteq> CHR ''-''"
proof -
  assume a: "digits10 n = c # cs"
  have "c \<in> set (digits10 n)" using a by simp
  then have "c \<in> set digit_chars" using digits10_set by auto
  then show ?thesis by (auto simp: digit_chars_def)
qed

lemma Atoi_Itoa:
  assumes "- (2 ^ 63) \<le> i" "i < 2 ^ 63"
  shows "Atoi (Itoa i) = Inr i"
proof (cases "i < 0")
  case False
  obtain c cs where d: "digits10 (nat i) = c # cs"
    using digits10_nonempty[of "nat i"] by (cases "digits10 (nat i)") auto
  have h: "c \<noteq> CHR ''+''" "c \<noteq> CHR ''-''" using digits10_hd[OF d] by auto
  have p: "parse_digits 0 (c # cs) = Some (nat i)" using parse_digits10[of "nat i"] d by simp
  have r: "\<not> nat i \<ge> 2 ^ 63" using assms(2) False by (simp add: nat_less_iff not_le)
  show ?thesis
    using False h r unfolding Atoi_def Itoa_def by (simp add: d p del: parse_digits.simps)
next
  case True
  have p: "parse_digits 0 (digits10 (nat (- i))) = Some (nat (- i))" by (rule parse_digits10)
  have r: "\<not> nat (- i) > 2 ^ 63" using assms(1) True by (simp add: nat_le_iff not_less)
  show ?thesis
    using True r digits10_nonempty[of "nat (- i)"] unfolding Atoi_def Itoa_def by (simp add: p)
qed

lemma Atoi_range: "Atoi s = Inr i \<Longrightarrow> - (2 ^ 63) \<le> i \<and> i < 2 ^ 63"
  unfolding Atoi_def
  by (auto simp: Let_def split: list.splits if_splits option.splits prod.splits)

section \<open>Lemmas: the directory tree\<close>

lemma lookup_append:
  "lookup t (p @ q) = (case lookup t p of Inl e \<Rightarrow> Inl e | Inr n \<Rightarrow> lookup n q)"
proof (induction p arbitrary: t)
  case Nil
  show ?case by simp
next
  case (Cons x p)
  show ?case
  proof (cases t)
    case (File b)
    then show ?thesis by simp
  next
    case (Dir es)
    then show ?thesis using Cons.IH by (simp split: option.splits)
  qed
qed

lemma lookup_snoc_Inr:
  "lookup t (p @ [x]) = Inr n \<longleftrightarrow> (\<exists>es. lookup t p = Inr (Dir es) \<and> map_of es x = Some n)"
  apply (simp add: lookup_append split: sum.splits)
  apply (auto split: option.splits)
  subgoal for m by (cases m) (auto split: option.splits)
  done

lemma put_other:
  "\<not> prefix p q \<Longrightarrow> \<not> prefix q p \<Longrightarrow> lookup (put p v t) q = lookup t q"
proof (induction p v t arbitrary: q rule: put.induct)
  case (1 v t)
  then show ?case by simp
next
  case (2 x xs v b)
  then show ?case by simp
next
  case (3 x v es)
  then show ?case
    by (cases q) (auto simp: update_conv' delete_conv' split: option.splits)
next
  case (4 x y ys v es)
  show ?case
  proof (cases "map_of es x")
    case None
    then show ?thesis by simp
  next
    case (Some c)
    show ?thesis
    proof (cases q)
      case Nil
      with 4 show ?thesis by simp
    next
      case (Cons z zs)
      show ?thesis
      proof (cases "z = x")
        case True
        with 4 Cons Some show ?thesis by (simp add: update_conv')
      next
        case False
        with Cons Some show ?thesis by (simp add: update_conv')
      qed
    qed
  qed
qed

lemma put_same:
  "p \<noteq> [] \<Longrightarrow> lookup t (butlast p) = Inr (Dir es) \<Longrightarrow>
   lookup (put p v t) p = (case v of None \<Rightarrow> Inl ENOENT | Some n \<Rightarrow> Inr n)"
proof (induction p v t arbitrary: es rule: put.induct)
  case (1 v t)
  then show ?case by simp
next
  case (2 x xs v b)
  then show ?case by (cases xs) auto
next
  case (3 x v es')
  then show ?case by (auto simp: update_conv' delete_conv' split: option.splits)
next
  case (4 x y ys v es')
  then show ?case
    by (cases "map_of es' x") (auto simp: update_conv')
qed

lemma put_parent:
  "p \<noteq> [] \<Longrightarrow> lookup t (butlast p) = Inr (Dir es) \<Longrightarrow>
   lookup (put p v t) (butlast p) =
     Inr (Dir (case v of None \<Rightarrow> AList.delete (last p) es | Some n \<Rightarrow> AList.update (last p) n es))"
proof (induction p v t arbitrary: es rule: put.induct)
  case (1 v t)
  then show ?case by simp
next
  case (2 x xs v b)
  then show ?case by (cases xs) auto
next
  case (3 x v es')
  then show ?case by (auto split: option.splits)
next
  case (4 x y ys v es')
  then show ?case
    by (cases "map_of es' x") (auto simp: update_conv' split: option.splits)
qed


lemma put_ancestor:
  "strict_prefix q p \<Longrightarrow> is_dir (lookup t q) \<Longrightarrow> is_dir (lookup (put p v t) q)"
proof (induction p v t arbitrary: q rule: put.induct)
  case (1 v t)
  then show ?case by simp
next
  case (2 x xs v b)
  then show ?case by simp
next
  case (3 x v es')
  then show ?case by (cases q) (auto simp: is_dir_def)
next
  case (4 x y ys v es')
  show ?case
  proof (cases "map_of es' x")
    case None
    then show ?thesis using 4 by simp
  next
    case (Some c)
    show ?thesis
    proof (cases q)
      case Nil
      then show ?thesis by (simp add: Some is_dir_def)
    next
      case (Cons z zs)
      with 4 Some show ?thesis by (auto simp: update_conv')
    qed
  qed
qed

section \<open>Lemmas: moving and removing entries\<close>

lemma names_of_set: "set (names_of es) = fst ` set es"
  by (simp add: names_of_def)

lemma names_of_map_of: "x \<in> set (names_of es) \<longleftrightarrow> map_of es x \<noteq> None"
  by (simp add: names_of_set map_of_eq_None_iff)

lemma names_of_distinct: "distinct (names_of es)"
  by (simp add: names_of_def)

lemma lookup_child:
  "lookup t d = Inr (Dir es) \<Longrightarrow>
   lookup t (d @ x # q) = (case map_of es x of None \<Rightarrow> Inl ENOENT | Some c \<Rightarrow> lookup c q)"
  by (simp add: lookup_append)

lemma unrelated_snoc:
  assumes "\<not> prefix d1 d2" "\<not> prefix d2 d1"
  shows "\<not> prefix (d1 @ [x]) d2" "\<not> prefix d2 (d1 @ [x])"
    "\<not> prefix (d1 @ [x]) (d2 @ [y])" "\<not> prefix (d2 @ [y]) (d1 @ [x])"
    "d1 @ [x] \<noteq> d2 @ [y]"
proof -
  show a: "\<not> prefix (d1 @ [x]) d2"
    using assms(1) by (meson append_prefixD)
  show b: "\<not> prefix d2 (d1 @ [x])"
    using assms by (auto simp: prefix_snoc)
  show "\<not> prefix (d1 @ [x]) (d2 @ [y])"
    using a assms by (auto simp: prefix_snoc)
  show "\<not> prefix (d2 @ [y]) (d1 @ [x])"
    using assms by (auto simp: prefix_snoc dest: append_prefixD)
  show "d1 @ [x] \<noteq> d2 @ [y]"
    using assms by auto
qed

lemma fs_rename_unrelated_Inr:
  assumes "fs_rename (d1 @ [x]) (d2 @ [y]) t = Inr t'" "\<not> prefix d1 d2" "\<not> prefix d2 d1"
  shows "\<exists>src oes nes. lookup t d1 = Inr (Dir oes) \<and> lookup t d2 = Inr (Dir nes)
           \<and> map_of oes x = Some src
           \<and> t' = put (d2 @ [y]) (Some src) (put (d1 @ [x]) None t)"
  using assms unrelated_snoc(3,5)[OF assms(2,3), of x y]
  unfolding fs_rename_def
  by (auto split: sum.splits node.splits option.splits if_splits)

lemma moved_lookup:
  assumes "lookup t d1 = Inr (Dir oes)" "lookup t d2 = Inr (Dir nes)"
    and "\<not> prefix d1 d2" "\<not> prefix d2 d1"
    and "t' = put (d2 @ [y]) (Some src) (put (d1 @ [x]) None t)"
  shows "lookup t' d1 = Inr (Dir (AList.delete x oes))"
    and "lookup t' d2 = Inr (Dir (AList.update y src nes))"
proof -
  let ?t1 = "put (d1 @ [x]) None t"
  have 1: "lookup ?t1 d1 = Inr (Dir (AList.delete x oes))"
    using put_parent[of "d1 @ [x]" t oes None] assms(1) by simp
  have 2: "lookup ?t1 d2 = Inr (Dir nes)"
    using put_other[of "d1 @ [x]" d2 None t] unrelated_snoc(1,2)[OF assms(3,4)] assms(2) by simp
  show "lookup t' d1 = Inr (Dir (AList.delete x oes))"
    using put_other[of "d2 @ [y]" d1 "Some src" ?t1] unrelated_snoc(1,2)[OF assms(4,3)] 1 assms(5)
    by simp
  show "lookup t' d2 = Inr (Dir (AList.update y src nes))"
    using put_parent[of "d2 @ [y]" ?t1 nes "Some src"] 2 assms(5) by simp
qed

lemma moved_other:
  assumes "t' = put new v (put old u t)"
    and "\<not> prefix q old" "\<not> prefix old q" "\<not> prefix q new" "\<not> prefix new q"
  shows "lookup t' q = lookup t q"
  using assms by (simp add: put_other)

lemma fs_rename_succeeds:
  assumes "lookup t d1 = Inr (Dir oes)" "map_of oes x = Some src"
    and "lookup t d2 = Inr (Dir nes)" "map_of nes y = None"
    and "\<not> prefix d1 d2" "\<not> prefix d2 d1"
  shows "fs_rename (d1 @ [x]) (d2 @ [y]) t = Inr (put (d2 @ [y]) (Some src) (put (d1 @ [x]) None t))"
  using assms unrelated_snoc(3,5)[OF assms(5,6), of x y]
  unfolding fs_rename_def
  by (auto split: sum.splits node.splits option.splits if_splits)

lemma fs_remove_Inr:
  assumes "fs_remove p t = Inr t'"
  shows "p \<noteq> [] \<and> t' = put p None t \<and> (\<exists>es. lookup t (butlast p) = Inr (Dir es))"
  using assms unfolding fs_remove_def
  by (auto split: sum.splits node.splits option.splits if_splits)

lemma fs_remove_succeeds:
  assumes "lookup t d = Inr (Dir es)" "map_of es x = Some (Dir [])"
  shows "fs_remove (d @ [x]) t = Inr (put (d @ [x]) None t)"
  using assms unfolding fs_remove_def by simp

section \<open>Lemmas: system calls of a process nobody disturbs\<close>

lemma begin_call_keeps:
  "procs (snd (begin_call w)) = procs w" "getpid (snd (begin_call w)) = getpid w"
  "rands (snd (begin_call w)) = rands w" "suffixes (snd (begin_call w)) = suffixes w"
  "logged (snd (begin_call w)) = logged w"
  by (auto simp: begin_call_def split: list.splits)

lemma begin_call_alone:
  assumes "alone w"
  shows "fs (snd (begin_call w)) = fs w" "alone (snd (begin_call w))"
  using assms by (auto simp: begin_call_def alone_def split: list.splits)

lemma tree_at_call_alone: "alone w \<Longrightarrow> tree_at_call w = fs w"
  by (simp add: tree_at_call_def begin_call_alone)

lemma syscall_alone:
  assumes "alone w" "syscall f w = (r, w')"
  shows "alone w'" "procs w' = procs w" "getpid w' = getpid w"
    "r = None \<Longrightarrow> f (fs w) = Inr (fs w')"
    "r \<noteq> None \<Longrightarrow> fs w' = fs w"
    "logged w' = logged w"
  using assms(2) begin_call_alone[OF assms(1)] begin_call_keeps[of w]
  by (auto simp: syscall_def Let_def alone_def split: prod.splits option.splits sum.splits)

lemma syscall_any:
  assumes "syscall f w = (r, w')"
  shows "procs w' = procs w" "getpid w' = getpid w"
    "r = None \<Longrightarrow> f (tree_at_call w) = Inr (fs w')"
    "r \<noteq> None \<Longrightarrow> fs w' = tree_at_call w"
  using assms begin_call_keeps[of w]
  by (auto simp: syscall_def Let_def tree_at_call_def split: prod.splits option.splits sum.splits)

section \<open>Lemmas: the directories of a queue\<close>

lemma valid_names_fixed:
  "valid_name ''tmp''" "valid_name ''new''" "valid_name ''cur''" "valid_name ''done''"
  "valid_name ''failed''"
  by (simp_all add: valid_name_def)

lemma path_Join2: "valid_name a \<Longrightarrow> path_Join [b, a] = path_Join [b] @ [a]"
  by (simp add: path_Join_Cons[of b "[a]"] pjoin_valid pjoin_Nil)

lemma path_Join3:
  "valid_name a \<Longrightarrow> valid_name x \<Longrightarrow> path_Join [b, a, x] = path_Join [b] @ [a, x]"
  by (simp add: path_Join_Cons[of b "[a, x]"] pjoin_valid pjoin_Nil)

lemma clean_step_valid: "valid_name s \<Longrightarrow> clean_step p s = p @ [s]"
  by (auto simp: clean_step_def valid_name_def)

lemma split_slash_mycur: "split_slash (mycur w) = [''cur'', Itoa (getpid w)]"
  using Itoa_valid[of "getpid w"] split_slash_slash[of "''cur''" "Itoa (getpid w)"]
  by (simp add: mycur_def valid_name_def split_slash_noslash)

lemma path_Join2_mycur:
  "path_Join [b, mycur w] = path_Join [b] @ [''cur'', Itoa (getpid w)]"
proof -
  have "path_Join [b, mycur w] = pjoin (path_Join [b]) [mycur w]"
    by (rule path_Join_Cons)
  also have "\<dots> = path_Join [b] @ [''cur'', Itoa (getpid w)]"
    unfolding pjoin_def
    by (simp add: split_slash_mycur clean_step_valid valid_names_fixed Itoa_valid)
  finally show ?thesis .
qed

lemma path_Join_mycur:
  "valid_name x \<Longrightarrow> path_Join [b, mycur w, x] = path_Join [b] @ [''cur'', Itoa (getpid w), x]"
proof -
  assume x: "valid_name x"
  have "path_Join [b, mycur w, x] = pjoin (path_Join [b]) ([mycur w] @ [x])"
    using path_Join_Cons[of b "[mycur w, x]"] by simp
  also have "\<dots> = pjoin (pjoin (path_Join [b]) [mycur w]) [x]"
    by (rule pjoin_append)
  also have "pjoin (path_Join [b]) [mycur w] = path_Join [b, mycur w]"
    by (rule path_Join_Cons[symmetric])
  finally show ?thesis
    using x by (simp add: path_Join2_mycur pjoin_valid1)
qed

lemma getNewDir_eq: "getNewDir qu = path_Join [basedir qu] @ [''new'']"
  by (simp add: getNewDir_def path_Join2 valid_names_fixed)

lemma getCurDir_eq: "getCurDir qu = path_Join [basedir qu] @ [''cur'']"
  by (simp add: getCurDir_def path_Join2 valid_names_fixed)

lemma getWorkerDir_eq: "getWorkerDir qu p = path_Join [basedir qu] @ [''cur'', Itoa p]"
  by (simp add: getWorkerDir_def path_Join3 valid_names_fixed Itoa_valid)

text \<open>A successful rename between unrelated directories, seen from the world.\<close>

lemma os_Rename_moved:
  assumes "os_Rename (d1 @ [x]) (d2 @ [y]) w = (None, w')"
    and "\<not> prefix d1 d2" "\<not> prefix d2 d1"
  shows "\<exists>src oes nes.
           lookup (tree_at_call w) d1 = Inr (Dir oes) \<and> map_of oes x = Some src
         \<and> lookup (tree_at_call w) d2 = Inr (Dir nes)
         \<and> lookup (fs w') d1 = Inr (Dir (AList.delete x oes))
         \<and> lookup (fs w') d2 = Inr (Dir (AList.update y src nes))
         \<and> fs w' = put (d2 @ [y]) (Some src) (put (d1 @ [x]) None (tree_at_call w))"
proof -
  have r: "fs_rename (d1 @ [x]) (d2 @ [y]) (tree_at_call w) = Inr (fs w')"
    using assms(1) syscall_any(3) unfolding os_Rename_def by blast
  from fs_rename_unrelated_Inr[OF r assms(2,3)] obtain src oes nes where
    h: "lookup (tree_at_call w) d1 = Inr (Dir oes)" "lookup (tree_at_call w) d2 = Inr (Dir nes)"
      "map_of oes x = Some src"
      "fs w' = put (d2 @ [y]) (Some src) (put (d1 @ [x]) None (tree_at_call w))"
    by blast
  from moved_lookup[OF h(1,2) assms(2,3) h(4)] h show ?thesis by blast
qed

text \<open>The transition between two state directories of the queue.\<close>

lemma transition_moved:
  assumes r: "os_Rename (d1 @ [x]) (d2 @ [x]) w = (None, w')"
    and u: "\<not> prefix d1 d2" "\<not> prefix d2 d1"
  shows "(\<exists>n. lookup (tree_at_call w) (d1 @ [x]) = Inr n \<and> lookup (fs w') (d2 @ [x]) = Inr n)
       \<and> lookup (fs w') (d1 @ [x]) = Inl ENOENT
       \<and> (\<exists>names. fs_readdirnames d2 (fs w') = Inr names \<and> x \<in> set names)
       \<and> (\<exists>names. fs_readdirnames d1 (fs w') = Inr names \<and> x \<notin> set names)"
proof -
  from os_Rename_moved[OF r u] obtain src oes nes where
    h: "lookup (tree_at_call w) d1 = Inr (Dir oes)" "map_of oes x = Some src"
       "lookup (tree_at_call w) d2 = Inr (Dir nes)"
       "lookup (fs w') d1 = Inr (Dir (AList.delete x oes))"
       "lookup (fs w') d2 = Inr (Dir (AList.update x src nes))"
    by blast
  have a: "lookup (tree_at_call w) (d1 @ [x]) = Inr src"
    using lookup_child[OF h(1), of x "[]"] h(2) by simp
  have b: "lookup (fs w') (d2 @ [x]) = Inr src"
    using lookup_child[OF h(5), of x "[]"] by (simp add: update_conv')
  have c: "lookup (fs w') (d1 @ [x]) = Inl ENOENT"
    using lookup_child[OF h(4), of x "[]"] by (simp add: delete_conv')
  have d: "fs_readdirnames d2 (fs w') = Inr (names_of (AList.update x src nes))"
    by (simp add: fs_readdirnames_def h(5))
  have d': "x \<in> set (names_of (AList.update x src nes))"
    by (simp add: names_of_map_of update_conv')
  have e: "fs_readdirnames d1 (fs w') = Inr (names_of (AList.delete x oes))"
    by (simp add: fs_readdirnames_def h(4))
  have e': "x \<notin> set (names_of (AList.delete x oes))"
    by (simp add: names_of_map_of delete_conv')
  show ?thesis using a b c d d' e e' by blast
qed

lemma readdirnames_calm:
  assumes "sched w = []" "fs_readdirnames d (fs w) = Inr names"
  shows "readdirnames d w = ((names, None), w)"
  using assms
  by (auto simp: readdirnames_def os_Open_def begin_call_def File_Readdirnames_def
      fs_readdirnames_def split: sum.splits node.splits)

section \<open>Lemmas: the steps of Set and Get\<close>

lemma put_same_dir:
  "p \<noteq> [] \<Longrightarrow> is_dir (lookup t (butlast p)) \<Longrightarrow>
   lookup (put p v t) p = (case v of None \<Rightarrow> Inl ENOENT | Some n \<Rightarrow> Inr n)"
  using put_same[of p t _ v]
  by (auto simp: is_dir_def split: sum.splits node.splits)

text \<open>An existing file is neither above nor below a path that is missing in a directory.\<close>

lemma file_unrelated:
  assumes k: "lookup t k = Inr (File v)"
    and f: "lookup t f = Inl e" and pf: "is_dir (lookup t (butlast f))"
  shows "\<not> prefix f k \<and> \<not> prefix k f"
proof
  show "\<not> prefix f k"
  proof
    assume "prefix f k"
    then obtain r where "k = f @ r" by (auto simp: prefix_def)
    with k f show False by (simp add: lookup_append)
  qed
  show "\<not> prefix k f"
  proof
    assume a: "prefix k f"
    have "k \<noteq> f" using k f by auto
    with a have "strict_prefix k f" by (simp add: strict_prefix_def)
    then obtain z zs where "f = k @ z # zs" by (rule strict_prefixE')
    then have "butlast f = k @ butlast (z # zs)" by (simp add: butlast_append)
    then obtain r where "butlast f = k @ r" by blast
    with pf k show False
      by (cases r) (auto simp: lookup_append is_dir_def)
  qed
qed


lemma put_parent_dir:
  "p \<noteq> [] \<Longrightarrow> is_dir (lookup t (butlast p)) \<Longrightarrow> is_dir (lookup (put p v t) (butlast p))"
  using put_parent[of p t _ v]
  by (auto simp: is_dir_def split: sum.splits node.splits)

lemma fs_create_excl_Inr:
  assumes "fs_create_excl f t = Inr t1"
  shows "(\<exists>e. lookup t f = Inl e) \<and> is_dir (lookup t (butlast f)) \<and> f \<noteq> []
       \<and> t1 = put f (Some (File [])) t"
  using assms unfolding fs_create_excl_def is_dir_def
  by (auto split: sum.splits node.splits)

lemma fs_rename_dest:
  assumes "fs_rename old new t = Inr t'"
  shows "lookup t' new = lookup t old"
proof (cases "old = new")
  case True
  with assms show ?thesis
    by (auto simp: fs_rename_def split: sum.splits node.splits option.splits if_splits)
next
  case False
  from assms False obtain src oes where
    h: "old \<noteq> []" "new \<noteq> []" "lookup t (butlast old) = Inr (Dir oes)"
       "map_of oes (last old) = Some src" "is_dir (lookup t (butlast new))"
       "\<not> prefix old new" "t' = put new (Some src) (put old None t)"
    unfolding fs_rename_def is_dir_def
    by (auto split: sum.splits node.splits option.splits if_splits)
  have o: "lookup t old = Inr src"
    using lookup_child[OF h(3), of "last old" "[]"] h(1,4) by simp
  let ?t1 = "put old None t"
  have pd: "is_dir (lookup ?t1 (butlast new))"
  proof (cases "prefix (butlast new) old")
    case True
    have "butlast new \<noteq> old"
    proof
      assume "butlast new = old"
      then have "prefix old new" using h(2) by (metis append_butlast_last_id prefixI)
      with h(6) show False by simp
    qed
    with True have "strict_prefix (butlast new) old" by (simp add: strict_prefix_def)
    then show ?thesis using h(5) by (rule put_ancestor)
  next
    case False
    have "\<not> prefix old (butlast new)"
    proof
      assume "prefix old (butlast new)"
      moreover have "prefix (butlast new) new" by (simp add: prefixeq_butlast)
      ultimately have "prefix old new" by (rule prefix_order.trans)
      with h(6) show False by simp
    qed
    with False have "lookup ?t1 (butlast new) = lookup t (butlast new)"
      by (intro put_other) simp_all
    with h(5) show ?thesis by simp
  qed
  have "lookup t' new = Inr src"
    unfolding h(7) using put_same_dir[OF h(2) pd, of "Some src"] by simp
  with o show ?thesis by simp
qed

lemma fs_append_file:
  assumes "lookup t f = Inr (File b)" "f \<noteq> []"
  shows "lookup (fs_append f d t) f = Inr (File (b @ d))"
proof -
  have "lookup t (butlast f @ [last f]) = Inr (File b)" using assms by simp
  then obtain es where "lookup t (butlast f) = Inr (Dir es)"
    unfolding lookup_snoc_Inr by blast
  then have "is_dir (lookup t (butlast f))" by (simp add: is_dir_def)
  from put_same_dir[OF assms(2) this, of "Some (File (b @ d))"]
  show ?thesis by (simp add: fs_append_def assms(1))
qed

lemma fs_append_other:
  assumes "\<not> prefix f k" "\<not> prefix k f"
  shows "lookup (fs_append f d t) k = lookup t k"
  using assms by (auto simp: fs_append_def put_other split: sum.splits node.splits)

lemma TempFile_try_alone:
  assumes "alone w" "TempFile_try rs d pre w = (r, w1)"
  shows "alone w1 \<and> (case r of Inl e \<Rightarrow> fs w1 = fs w | Inr f \<Rightarrow> fs_create_excl f (fs w) = Inr (fs w1))"
  using assms
proof (induction rs arbitrary: w)
  case Nil
  then show ?case by auto
next
  case (Cons x rs)
  let ?w = "w\<lparr>suffixes := rs\<rparr>"
  let ?name = "pjoin d [pre @ digits10 x]"
  have al: "alone ?w" and fw: "fs ?w = fs w" using Cons.prems(1) by (simp_all add: alone_def)
  obtain e w2 where sc: "syscall (fs_create_excl ?name) ?w = (e, w2)" by force
  note sa = syscall_alone[OF al sc]
  show ?case
  proof (cases e)
    case None
    with Cons.prems(2) sc have "r = Inr ?name" "w1 = w2" by (simp_all add: Let_def)
    with sa None fw show ?thesis by simp
  next
    case (Some err)
    show ?thesis
    proof (cases "os_IsExist err")
      case True
      with Cons.prems(2) sc Some have "TempFile_try rs d pre w2 = (r, w1)" by (simp add: Let_def)
      from Cons.IH[OF sa(1) this] sa(5) Some fw show ?thesis by (auto split: sum.splits)
    next
      case False
      with Cons.prems(2) sc Some have "r = Inl err" "w1 = w2" by (simp_all add: Let_def)
      with sa Some fw show ?thesis by simp
    qed
  qed
qed

lemma File_Write_alone:
  assumes "alone w" "File_Write f d w = (r, w2)"
  shows "alone w2 \<and> (\<exists>d'. fs w2 = fs_append f d' (fs w) \<and> (r = None \<longrightarrow> d' = d))"
  using assms(2) begin_call_alone[OF assms(1)]
  by (auto simp: File_Write_def Let_def alone_def split: prod.splits option.splits)

lemma File_Close_alone:
  assumes "alone w" "File_Close f w = (r, w3)"
  shows "alone w3 \<and> fs w3 = fs w"
  using assms(2) begin_call_alone[OF assms(1)]
  by (auto simp: File_Close_def Let_def split: prod.splits)

lemma os_Rename_alone:
  assumes "alone w" "os_Rename a b w = (r, w')"
  shows "alone w' \<and> (r = None \<longrightarrow> fs_rename a b (fs w) = Inr (fs w')) \<and> (r \<noteq> None \<longrightarrow> fs w' = fs w)"
  using syscall_alone[OF assms(1) assms(2)[unfolded os_Rename_def]] by blast

lemma Get_reads:
  assumes "lookup (tree_at_call w) (pjoin (dir j) [key]) = Inr (File v)"
    and "fault (fst (begin_call w)) = None"
  shows "Get j key w = ((v, None), snd (begin_call w))"
proof -
  obtain t w1 where b: "begin_call w = (t, w1)" by force
  with assms have "lookup (fs w1) (pjoin (dir j) [key]) = Inr (File v)" "fault t = None"
    by (simp_all add: tree_at_call_def)
  then show ?thesis
    by (simp add: Get_def ioutil_ReadFile_def fs_readfile_def b)
qed

section \<open>Evaluating the model on a concrete world\<close>

lemmas path_eval =
  path_Join_def pjoin_def clean_step_def getNewDir_def getCurDir_def getWorkerDir_def

lemmas world_eval =
  ex_world_def ex_queue_def begin_call_def syscall_def os_Rename_def os_Mkdir_def
  os_Remove_def os_Open_def File_Readdirnames_def readdirnames_def fs_readdirnames_def
  names_of_def

section \<open>Take on an empty queue\<close>

text \<open>
  Claim C7. For every queue whose submittable directory (\<^verbatim>\<open>new\<close>) lists no entries,
  Take returns "none available", a nil job, with no error: when the listing Take reads
  comes back empty and without an error, Take returns at once with neither a job nor an
  error, whatever else the world holds.
\<close>

theorem Take_none_available:
  assumes "readdirnames (getNewDir qu) w = (([], None), w1)"
  shows "Take qu w = Some ((None, None), w1)"
  using assms by (subst Take.simps) (simp add: Take_body_def getNewDir_def)

text \<open>The witness: Take on the freshly opened example queue.\<close>

theorem Take_none_available_witness:
  "readdirnames (getNewDir ex_queue) (ex_world fresh_tree []) = (([], None), ex_world fresh_tree [])
   \<and> Take ex_queue (ex_world fresh_tree []) = Some ((None, None), ex_world fresh_tree [])"
proof -
  have h: "readdirnames (getNewDir ex_queue) (ex_world fresh_tree []) = (([], None), ex_world fresh_tree [])"
    by (simp add: path_eval world_eval fresh_tree_def)
  show ?thesis
    using h Take_none_available [OF h] by simp
qed

section \<open>A failed transition\<close>

lemma syscall_failed:
  "syscall f w = (Some err, w') \<Longrightarrow> w' = snd (begin_call w)"
  by (auto simp: syscall_def Let_def split: prod.splits option.splits sum.splits)

text \<open>
  Claim C8. For each of Submit, Finish and Fail: if the underlying rename fails, the
  operation returns that error and the job is left as it was, its location unchanged;
  the failed call has changed nothing in the tree it found.
\<close>

theorem transition_failure_keeps_location:
  assumes "(sub, f) \<in> {(''new'', Submit), (''done'', Finish), (''failed'', Fail)}"
    and "os_Rename (dir job) (path_Join [basedir (job_q job), sub, Basename job]) w = (Some err, w')"
  shows "f job w = (Some err, job, w') \<and> fs w' = tree_at_call w"
proof -
  have "fs w' = tree_at_call w"
    using assms(2) syscall_failed unfolding os_Rename_def tree_at_call_def by blast
  moreover have "f job w = (Some err, job, w')"
    using assms by (auto simp: Submit_def Finish_def Fail_def)
  ultimately show ?thesis by simp
qed

text \<open>The witness: the three transitions on a job whose directory is gone.\<close>

theorem transition_failure_keeps_location_witness:
  "Submit lost_job (ex_world fresh_tree []) = (Some ENOENT, lost_job, ex_world fresh_tree [])
   \<and> Finish lost_job (ex_world fresh_tree []) = (Some ENOENT, lost_job, ex_world fresh_tree [])
   \<and> Fail lost_job (ex_world fresh_tree []) = (Some ENOENT, lost_job, ex_world fresh_tree [])
   \<and> fs (ex_world fresh_tree []) = tree_at_call (ex_world fresh_tree [])"
proof -
  have r: "os_Rename (dir lost_job) (path_Join [basedir (job_q lost_job), sub, Basename lost_job])
             (ex_world fresh_tree []) = (Some ENOENT, ex_world fresh_tree [])"
    if "sub \<in> {''new'', ''done'', ''failed''}" for sub
    using that by (auto simp: lost_job_def path_eval world_eval fresh_tree_def fs_rename_def)
  show ?thesis
    using transition_failure_keeps_location [OF _ r, of "''new''" Submit]
      transition_failure_keeps_location [OF _ r, of "''done''" Finish]
      transition_failure_keeps_location [OF _ r, of "''failed''" Fail]
    by simp
qed

section \<open>Take when the rename fails\<close>

lemma Itoa_4242: "Itoa 4242 = ''4242''"
  by (simp add: Itoa_def digits10.simps digit_chars_def)

lemma fs_rename_ENOENT:
  assumes "fs_rename old new t = Inl ENOENT"
  shows "lookup t old = Inl ENOENT \<or> lookup t (butlast new) = Inl ENOENT"
proof -
  have o: "old \<noteq> []" using assms by (auto simp: fs_rename_def)
  then have "lookup t old = lookup t (butlast old @ [last old])" by simp
  also have "\<dots> = (case lookup t (butlast old) of Inl e \<Rightarrow> Inl e | Inr n \<Rightarrow> lookup n [last old])"
    by (rule lookup_append)
  finally have l: "lookup t old = (case lookup t (butlast old) of Inl e \<Rightarrow> Inl e | Inr n \<Rightarrow> lookup n [last old])" .
  show ?thesis
    using assms o unfolding fs_rename_def l
    by (auto split: if_splits sum.splits node.splits option.splits prod.splits)
qed

lemma fs_rename_source_gone:
  assumes "lookup t old = Inl ENOENT" "is_dir (lookup t (butlast old))" "is_dir (lookup t (butlast new))"
    "new \<noteq> []"
  shows "fs_rename old new t = Inl ENOENT"
proof -
  have o: "old \<noteq> []" using assms(1) by (cases old) auto
  then have "lookup t old = lookup t (butlast old @ [last old])" by simp
  also have "\<dots> = (case lookup t (butlast old) of Inl e \<Rightarrow> Inl e | Inr n \<Rightarrow> lookup n [last old])"
    by (rule lookup_append)
  finally have l: "lookup t old = (case lookup t (butlast old) of Inl e \<Rightarrow> Inl e | Inr n \<Rightarrow> lookup n [last old])" .
  show ?thesis
    using assms o unfolding fs_rename_def is_dir_def l
    by (auto split: if_splits sum.splits node.splits option.splits prod.splits)
qed

lemma Take_body_slotless:
  "Take_body ex_queue (ex_world slotless_tree []) = Retry (ex_world slotless_tree [])"
  by (simp add: Take_body_def mycur_def Itoa_4242 rand_Intn_def path_eval world_eval
      slotless_tree_def fs_rename_def os_IsNotExist_def Let_def)

lemma Take_slotless_never:
  assumes "Take qu w = Some y"
  shows "\<not> (qu = ex_queue \<and> w = ex_world slotless_tree [])"
proof (rule Take.raw_induct
    [where P = "\<lambda>qu w y. \<not> (qu = ex_queue \<and> w = ex_world slotless_tree [])", OF _ assms])
  fix Take' :: "Queue \<Rightarrow> world \<Rightarrow> ((Job option \<times> error option) \<times> world) option"
    and qu' w' y'
  assume ih: "\<And>qu w y. Take' qu w = Some y \<Longrightarrow> \<not> (qu = ex_queue \<and> w = ex_world slotless_tree [])"
    and body: "(case Take_body qu' w' of Retry w'' \<Rightarrow> Take' qu' w''
                | Done j err w'' \<Rightarrow> Some ((j, err), w'')) = Some y'"
  show "\<not> (qu' = ex_queue \<and> w' = ex_world slotless_tree [])"
  proof
    assume a: "qu' = ex_queue \<and> w' = ex_world slotless_tree []"
    with body have "Take' ex_queue (ex_world slotless_tree []) = Some y'"
      by (simp add: Take_body_slotless)
    with ih show False by blast
  qed
qed

text \<open>
  Claim C2 says that only a rename that fails because the source no longer exists is
  retried, and that any other rename failure is returned. It fails where the caller's
  owner slot is missing: the job \<^verbatim>\<open>X\<close> is in \<^verbatim>\<open>new\<close>, the rename fails with
  ENOENT because the directory to move into is not there, and Take goes round again
  instead of returning the failure; with nobody else acting it never returns.
\<close>

theorem Take_retry_counterexample:
  "lookup (fs (ex_world slotless_tree [])) [''q'', ''new'', ''X''] = Inr (Dir [])
   \<and> os_Rename [''q'', ''new'', ''X''] [''q'', ''cur'', ''4242'', ''X''] (ex_world slotless_tree [])
       = (Some ENOENT, ex_world slotless_tree [])
   \<and> Take_body ex_queue (ex_world slotless_tree []) = Retry (ex_world slotless_tree [])
   \<and> Take ex_queue (ex_world slotless_tree []) = None"
proof -
  have "Take ex_queue (ex_world slotless_tree []) = None"
  proof (cases "Take ex_queue (ex_world slotless_tree [])")
    case None
    then show ?thesis .
  next
    case (Some y)
    from Take_slotless_never [OF Some] show ?thesis by simp
  qed
  moreover have "lookup (fs (ex_world slotless_tree [])) [''q'', ''new'', ''X''] = Inr (Dir [])"
    by (simp add: ex_world_def slotless_tree_def)
  moreover have "os_Rename [''q'', ''new'', ''X''] [''q'', ''cur'', ''4242'', ''X''] (ex_world slotless_tree [])
       = (Some ENOENT, ex_world slotless_tree [])"
    by (simp add: world_eval slotless_tree_def fs_rename_def)
  ultimately show ?thesis using Take_body_slotless by simp
qed

text \<open>
  Claim C2, amended. In Take, when the rename of the chosen name from \<^verbatim>\<open>new\<close> into the
  caller's owner slot fails with a not-exist error (os.IsNotExist), Take returns no error
  and goes on from the listing step in the state after the rename; a rename failure of
  any other kind makes Take return that failure, with no job. A not-exist error that is
  not a fault of the device means that the source is gone or that the directory to move
  into is missing.
\<close>

theorem Take_rename_failure:
  assumes "readdirnames (getNewDir qu) w = ((names, None), w1)"
    and "names \<noteq> []"
    and "rand_Intn (length names) w1 = (i, w2)"
    and "os_Rename (path_Join [basedir qu, ''new'', names ! i])
           (path_Join [basedir qu, mycur w2, names ! i]) w2 = (Some err, w3)"
  shows "Take qu w = (if os_IsNotExist err then Take qu w3 else Some ((None, Some err), w3))
     \<and> (os_IsNotExist err \<and> fault (fst (begin_call w2)) = None \<longrightarrow>
          lookup (tree_at_call w2) (path_Join [basedir qu, ''new'', names ! i]) = Inl ENOENT
          \<or> lookup (tree_at_call w2) (butlast (path_Join [basedir qu, mycur w2, names ! i]))
              = Inl ENOENT)"
proof -
  have a: "Take qu w = (if os_IsNotExist err then Take qu w3 else Some ((None, Some err), w3))"
    using assms by (subst Take.simps) (simp add: Take_body_def getNewDir_def)
  have b: "lookup (tree_at_call w2) (path_Join [basedir qu, ''new'', names ! i]) = Inl ENOENT
          \<or> lookup (tree_at_call w2) (butlast (path_Join [basedir qu, mycur w2, names ! i]))
              = Inl ENOENT"
    if "os_IsNotExist err" "fault (fst (begin_call w2)) = None"
  proof -
    have "fs_rename (path_Join [basedir qu, ''new'', names ! i])
            (path_Join [basedir qu, mycur w2, names ! i]) (tree_at_call w2) = Inl ENOENT"
      using assms(4) that
      by (auto simp: os_Rename_def syscall_def tree_at_call_def os_IsNotExist_def
          split: prod.splits sum.splits)
    then show ?thesis by (rule fs_rename_ENOENT)
  qed
  show ?thesis using a b by blast
qed

text \<open>
  The witness: worker 7 takes the only job between the listing and the rename of worker
  4242, whose Take then finds the queue empty.
\<close>

theorem Take_rename_failure_witness:
  "readdirnames (getNewDir ex_queue) (ex_world raced_tree raced_sched)
     = (([''X''], None), ex_world raced_tree [raced_sched ! 2])
   \<and> os_Rename (path_Join [basedir ex_queue, ''new'', ''X''])
        (path_Join [basedir ex_queue, mycur (ex_world raced_tree [raced_sched ! 2]), ''X''])
        (ex_world raced_tree [raced_sched ! 2]) = (Some ENOENT, ex_world raced_tree_after [])
   \<and> Take ex_queue (ex_world raced_tree raced_sched) = Take ex_queue (ex_world raced_tree_after [])
   \<and> Take ex_queue (ex_world raced_tree_after []) = Some ((None, None), ex_world raced_tree_after [])"
proof -
  have a: "readdirnames (getNewDir ex_queue) (ex_world raced_tree raced_sched)
     = (([''X''], None), ex_world raced_tree [raced_sched ! 2])"
    by (simp add: path_eval world_eval raced_tree_def raced_sched_def quiet_tick_def)
  have b: "rand_Intn (length [''X'']) (ex_world raced_tree [raced_sched ! 2])
     = (0, ex_world raced_tree [raced_sched ! 2])"
    by (simp add: rand_Intn_def ex_world_def)
  have c: "os_Rename (path_Join [basedir ex_queue, ''new'', [''X''] ! 0])
        (path_Join [basedir ex_queue, mycur (ex_world raced_tree [raced_sched ! 2]), [''X''] ! 0])
        (ex_world raced_tree [raced_sched ! 2]) = (Some ENOENT, ex_world raced_tree_after [])"
    by (simp add: mycur_def Itoa_4242 path_eval world_eval raced_tree_def raced_tree_after_def
        raced_sched_def fs_rename_def or_same_def)
  have d: "readdirnames (getNewDir ex_queue) (ex_world raced_tree_after [])
     = (([], None), ex_world raced_tree_after [])"
    by (simp add: path_eval world_eval raced_tree_after_def)
  have e: "Take ex_queue (ex_world raced_tree_after []) = Some ((None, None), ex_world raced_tree_after [])"
    using d by (subst Take.simps) (simp add: Take_body_def getNewDir_def)
  show ?thesis
    using a c e Take_rename_failure [OF a _ b c] by (simp add: os_IsNotExist_def)
qed

section \<open>The life of a job\<close>

lemmas tree_eval = queue_tree_def the_job_def tree_created_def tree_submitted_def tree_taken_def
  tree_done_def tree_failed_def job_at_def used_world_def fresh_tree_def

lemma digits10_7: "digits10 7 = ''7''"
  by (simp add: digits10.simps digit_chars_def)

lemma scenario_create:
  "CreateJob ex_queue ''build'' (ex_world fresh_tree []) = (Inr (job_at [''q'', ''tmp'']), used_world tree_created)"
  by (simp add: CreateJob_def ioutil_TempDir_def digits10_7 path_Base_def fs_mkdir_def
      path_eval world_eval tree_eval)

lemma scenario_submit:
  "Submit (job_at [''q'', ''tmp'']) (used_world tree_created)
     = (None, job_at [''q'', ''new''], used_world tree_submitted)"
  by (simp add: Submit_def fs_rename_def path_eval world_eval tree_eval)

lemma scenario_take:
  "Take ex_queue (used_world tree_submitted)
     = Some ((Some (job_at [''q'', ''cur'', ''4242'']), None), used_world tree_taken)"
  by (subst Take.simps)
    (simp add: Take_body_def mycur_def Itoa_4242 rand_Intn_def fs_rename_def Let_def
      path_eval world_eval tree_eval)



text \<open>
  Claim C4. For every job created in staging, a successful Submit renames the job's
  directory from \<^verbatim>\<open>tmp\<close> into \<^verbatim>\<open>new\<close> under the job's id and sets the job's
  location to that path: the directory and all it holds is at the new path, the old
  path is gone, and the id is in the listing of \<^verbatim>\<open>new\<close>, the listing that the Take of
  any process reads when nothing has changed the tree since.
\<close>

theorem Submit_moves_job_to_new:
  assumes "in_staging job" and "Submit job w = (None, job', w')"
  shows "Basename job' = Basename job \<and> job_q job' = job_q job
     \<and> dir job' = getNewDir (job_q job) @ [Basename job]
     \<and> (\<exists>n. lookup (tree_at_call w) (dir job) = Inr n \<and> lookup (fs w') (dir job') = Inr n)
     \<and> lookup (fs w') (dir job) = Inl ENOENT
     \<and> (\<exists>names. fs_readdirnames (getNewDir (job_q job)) (fs w') = Inr names
              \<and> Basename job \<in> set names
              \<and> (\<forall>v. fs v = fs w' \<and> sched v = [] \<longrightarrow>
                    readdirnames (getNewDir (job_q job)) v = ((names, None), v)))"
proof -
  let ?B = "path_Join [basedir (job_q job)]"
  let ?x = "Basename job"
  have v: "valid_name ?x" and d: "dir job = (?B @ [''tmp'']) @ [?x]"
    using assms(1) by (simp_all add: in_staging_def path_Join2 valid_names_fixed)
  have n: "path_Join [basedir (job_q job), ''new'', ?x] = (?B @ [''new'']) @ [?x]"
    using v by (simp add: path_Join3 valid_names_fixed)
  have r: "os_Rename ((?B @ [''tmp'']) @ [?x]) ((?B @ [''new'']) @ [?x]) w = (None, w')"
    and j: "job' = job\<lparr>dir := (?B @ [''new'']) @ [?x]\<rparr>"
    using assms(2) unfolding Submit_def Let_def n d[symmetric]
    by (auto split: prod.splits option.splits)
  have u: "\<not> prefix (?B @ [''tmp'']) (?B @ [''new''])" "\<not> prefix (?B @ [''new'']) (?B @ [''tmp''])"
    by simp_all
  from transition_moved[OF r u] obtain nm names where
    t: "lookup (tree_at_call w) ((?B @ [''tmp'']) @ [?x]) = Inr nm"
       "lookup (fs w') ((?B @ [''new'']) @ [?x]) = Inr nm"
       "lookup (fs w') ((?B @ [''tmp'']) @ [?x]) = Inl ENOENT"
       "fs_readdirnames (?B @ [''new'']) (fs w') = Inr names" "?x \<in> set names"
    by blast
  have vis: "\<forall>v. fs v = fs w' \<and> sched v = [] \<longrightarrow>
      readdirnames (getNewDir (job_q job)) v = ((names, None), v)"
    using t(4) by (auto simp: getNewDir_eq intro: readdirnames_calm)
  show ?thesis
    using t vis by (auto simp: j d getNewDir_eq)
qed

text \<open>
  The witness: the job that CreateJob made is submitted, and Take returns it.
\<close>

theorem Submit_moves_job_to_new_witness:
  "CreateJob ex_queue ''build'' (ex_world fresh_tree []) = (Inr (job_at [''q'', ''tmp'']), used_world tree_created)
   \<and> in_staging (job_at [''q'', ''tmp''])
   \<and> Submit (job_at [''q'', ''tmp'']) (used_world tree_created)
        = (None, job_at [''q'', ''new''], used_world tree_submitted)
   \<and> dir (job_at [''q'', ''new'']) = getNewDir ex_queue @ [''build7'']
   \<and> lookup tree_submitted [''q'', ''tmp'', ''build7''] = Inl ENOENT
   \<and> lookup tree_submitted [''q'', ''new'', ''build7''] = Inr (Dir [])
   \<and> Take ex_queue (used_world tree_submitted)
        = Some ((Some (job_at [''q'', ''cur'', ''4242'']), None), used_world tree_taken)"
proof -
  have s: "in_staging (job_at [''q'', ''tmp''])"
    by (simp add: in_staging_def valid_name_def job_at_def ex_queue_def path_eval)
  have "dir (job_at [''q'', ''new'']) = getNewDir (job_q (job_at [''q'', ''tmp''])) @ [Basename (job_at [''q'', ''tmp''])]
      \<and> lookup (fs (used_world tree_submitted)) (dir (job_at [''q'', ''tmp''])) = Inl ENOENT"
    using Submit_moves_job_to_new [OF s scenario_submit] by blast
  then have "dir (job_at [''q'', ''new'']) = getNewDir ex_queue @ [''build7'']
      \<and> lookup tree_submitted [''q'', ''tmp'', ''build7''] = Inl ENOENT"
    by (simp add: job_at_def used_world_def ex_world_def)
  moreover have "lookup tree_submitted [''q'', ''new'', ''build7''] = Inr (Dir [])"
    by (simp add: tree_eval)
  ultimately show ?thesis
    using s scenario_create scenario_submit scenario_take by simp
qed



section \<open>Properties: Set and Get\<close>

lemma log_line_keeps:
  "fs (log_line l w) = fs w" "sched (log_line l w) = sched w" "procs (log_line l w) = procs w"
  "getpid (log_line l w) = getpid w" "alone (log_line l w) = alone w"
  by (simp_all add: log_line_def alone_def)

lemma created_then_written:
  assumes c: "fs_create_excl f t = Inr t1"
  shows "lookup (fs_append f d t1) f = Inr (File d)"
proof -
  from fs_create_excl_Inr[OF c] have
    h: "is_dir (lookup t (butlast f))" "f \<noteq> []" "t1 = put f (Some (File [])) t" by auto
  have "lookup t1 f = Inr (File [])"
    unfolding h(3) using put_same_dir[OF h(2,1), of "Some (File [])"] by simp
  from fs_append_file[OF this h(2), of d] show ?thesis by simp
qed

lemma created_keeps_file:
  assumes c: "fs_create_excl f t = Inr t1" and k: "lookup t k = Inr (File v)"
  shows "lookup (fs_append f d t1) k = Inr (File v)"
proof -
  from fs_create_excl_Inr[OF c] obtain e where
    h: "lookup t f = Inl e" "is_dir (lookup t (butlast f))" "t1 = put f (Some (File [])) t" by auto
  from file_unrelated[OF k h(1,2)] have u: "\<not> prefix f k" "\<not> prefix k f" by auto
  have "lookup (fs_append f d t1) k = lookup t1 k" using u by (rule fs_append_other)
  also have "\<dots> = lookup t k" unfolding h(3) using u by (rule put_other)
  finally show ?thesis using k by simp
qed

lemmas set_eval = Set_def Get_def ioutil_TempFile_def ioutil_ReadFile_def File_Write_def
  File_Close_def fs_create_excl_def fs_append_def fs_readfile_def fs_rename_def log_line_def
  supply_world_def tree_with_value_def fault_tick_def quiet_tick_def digits10_7 Let_def

lemma set_1:
  "Set (job_at [''q'', ''tmp'']) ''state'' ''v1'' (supply_world tree_created [7, 8] [])
     = (None, supply_world (tree_with_value ''v1'') [8] [])"
  by (simp add: set_eval path_eval world_eval tree_eval)

lemma set_2:
  "Set (job_at [''q'', ''tmp'']) ''state'' ''v2'' (supply_world (tree_with_value ''v1'') [8] [])
     = (None, supply_world (tree_with_value ''v2'') [] [])"
  by (simp add: set_eval path_eval world_eval tree_eval digits10.simps digit_chars_def)

text \<open>
  Claim C3. For every job, key and byte string, a successful Set followed by Get of the
  same key returns exactly the bytes that were set, whatever was stored under the key
  before: the last Set wins. Nobody else acts on the file system meanwhile, and the read
  does not fail.
\<close>

theorem Set_then_Get:
  assumes "alone w"
    and "Set j key data w = (None, w')"
    and "fault (fst (begin_call w')) = None"
  shows "Get j key w' = ((data, None), snd (begin_call w'))"
proof -
  let ?T = "path_Join [basedir (job_q j), ''tmp'']"
  let ?K = "pjoin (dir j) [key]"
  from assms(2) obtain f w1 w2 w3 where
    s: "ioutil_TempFile ?T key w = (Inr f, w1)" "File_Write f data w1 = (None, w2)"
       "File_Close f w2 = (None, w3)" "os_Rename f ?K w3 = (None, w')"
    unfolding Set_def Let_def by (auto split: prod.splits sum.splits option.splits)
  from TempFile_try_alone[OF assms(1) s(1)[unfolded ioutil_TempFile_def]]
  have 1: "alone w1" "fs_create_excl f (fs w) = Inr (fs w1)" by auto
  from File_Write_alone[OF 1(1) s(2)]
  have 2: "alone w2" "fs w2 = fs_append f data (fs w1)" by auto
  from File_Close_alone[OF 2(1) s(3)]
  have 3: "alone w3" "fs w3 = fs w2" by auto
  from os_Rename_alone[OF 3(1) s(4)]
  have 4: "alone w'" "fs_rename f ?K (fs w3) = Inr (fs w')" by auto
  have "lookup (fs w3) f = Inr (File data)"
    unfolding 3(2) 2(2) using 1(2) by (rule created_then_written)
  with fs_rename_dest[OF 4(2)] have "lookup (fs w') ?K = Inr (File data)" by simp
  then have "lookup (tree_at_call w') ?K = Inr (File data)"
    using 4(1) by (simp add: tree_at_call_alone)
  then show ?thesis using assms(3) by (rule Get_reads)
qed

text \<open>The witness: two values set in turn under one key, each read back.\<close>

theorem Set_then_Get_witness:
  "alone (supply_world tree_created [7, 8] [])
   \<and> Set (job_at [''q'', ''tmp'']) ''state'' ''v1'' (supply_world tree_created [7, 8] [])
       = (None, supply_world (tree_with_value ''v1'') [8] [])
   \<and> Get (job_at [''q'', ''tmp'']) ''state'' (supply_world (tree_with_value ''v1'') [8] [])
       = ((''v1'', None), supply_world (tree_with_value ''v1'') [8] [])
   \<and> Set (job_at [''q'', ''tmp'']) ''state'' ''v2'' (supply_world (tree_with_value ''v1'') [8] [])
       = (None, supply_world (tree_with_value ''v2'') [] [])
   \<and> Get (job_at [''q'', ''tmp'']) ''state'' (supply_world (tree_with_value ''v2'') [] [])
       = ((''v2'', None), supply_world (tree_with_value ''v2'') [] [])"
proof -
  have a: "alone (supply_world t sfx [])" for t sfx
    by (simp add: alone_def supply_world_def ex_world_def)
  have b: "fault (fst (begin_call (supply_world t sfx []))) = None"
    and c: "snd (begin_call (supply_world t sfx [])) = supply_world t sfx []" for t sfx
    by (simp_all add: begin_call_def supply_world_def ex_world_def)
  show ?thesis
    using a Set_then_Get [OF a set_1 b] Set_then_Get [OF a set_2 b] set_1 set_2
    by (simp add: c)
qed

text \<open>
  Claim C6. If Set fails, at the write to the temporary file, at the close or at the
  final rename (or before, when no temporary file can be made), the value that was
  stored under the key is still there, whole, and Get returns it: a failed Set leaves
  neither a truncated value nor none at the key.
\<close>

theorem failed_Set_keeps_value:
  assumes "alone w"
    and "lookup (fs w) (pjoin (dir j) [key]) = Inr (File v)"
    and "Set j key data w = (Some err, w')"
  shows "lookup (fs w') (pjoin (dir j) [key]) = Inr (File v)
     \<and> (fault (fst (begin_call w')) = None \<longrightarrow> Get j key w' = ((v, None), snd (begin_call w')))"
proof -
  let ?T = "path_Join [basedir (job_q j), ''tmp'']"
  let ?K = "pjoin (dir j) [key]"
  have main: "alone w' \<and> lookup (fs w') ?K = Inr (File v)"
  proof -
    obtain rt w1 where tf: "ioutil_TempFile ?T key w = (rt, w1)" by force
    note t1 = TempFile_try_alone[OF assms(1) tf[unfolded ioutil_TempFile_def]]
    show ?thesis
    proof (cases rt)
      case (Inl e)
      with assms(3) tf have "w' = w1" by (simp add: Set_def)
      with t1 Inl assms(2) show ?thesis by simp
    next
      case (Inr f)
      with t1 have 1: "alone w1" "fs_create_excl f (fs w) = Inr (fs w1)" by auto
      obtain rw w2 where wr: "File_Write f data w1 = (rw, w2)" by force
      from File_Write_alone[OF 1(1) wr] obtain d' where
        2: "alone w2" "fs w2 = fs_append f d' (fs w1)" by auto
      have k2: "lookup (fs w2) ?K = Inr (File v)"
        unfolding 2(2) using 1(2) assms(2) by (rule created_keeps_file)
      show ?thesis
      proof (cases rw)
        case (Some e)
        with assms(3) tf Inr wr have "w' = w2" by (simp add: Set_def)
        with 2 k2 show ?thesis by simp
      next
        case None
        obtain rc w3 where cl: "File_Close f w2 = (rc, w3)" by force
        from File_Close_alone[OF 2(1) cl] have 3: "alone w3" "fs w3 = fs w2" by auto
        show ?thesis
        proof (cases rc)
          case (Some e)
          with assms(3) tf Inr wr None cl have "w' = w3" by (simp add: Set_def)
          with 3 k2 show ?thesis by simp
        next
          case None': None
          obtain rr w4 where rn: "os_Rename f ?K w3 = (rr, w4)" by force
          from assms(3) tf Inr wr None cl None' rn
          have r: "rr = Some err" "w' = log_line (LogRenameFailed f ?K) w4"
            by (auto simp: Set_def Let_def split: option.splits)
          from os_Rename_alone[OF 3(1) rn] r(1) have "alone w4" "fs w4 = fs w3" by auto
          with r(2) 3 k2 show ?thesis by (simp add: log_line_keeps)
        qed
      qed
    qed
  qed
  then have "lookup (tree_at_call w') ?K = Inr (File v)" by (simp add: tree_at_call_alone)
  then have "fault (fst (begin_call w')) = None \<Longrightarrow> Get j key w' = ((v, None), snd (begin_call w'))"
    by (rule Get_reads)
  with main show ?thesis by blast
qed

text \<open>
  The witness: Set fails at the write, after two bytes; at the close; at the rename.
\<close>

lemma set_fail_write:
  "Set (job_at [''q'', ''tmp'']) ''state'' ''fresh''
       (supply_world (tree_with_value ''old'') [7] [quiet_tick, fault_tick ENOSPC 2])
     = (Some ENOSPC, supply_world (tmp_left ''fr'') [] [])"
  by (simp add: set_eval path_eval world_eval tree_eval tmp_left_def)

lemma set_fail_close:
  "Set (job_at [''q'', ''tmp'']) ''state'' ''fresh''
       (supply_world (tree_with_value ''old'') [7] [quiet_tick, quiet_tick, fault_tick EIO 0])
     = (Some EIO, supply_world (tmp_left ''fresh'') [] [])"
  by (simp add: set_eval path_eval world_eval tree_eval tmp_left_def)

lemma set_fail_rename:
  "Set (job_at [''q'', ''tmp'']) ''state'' ''fresh''
       (supply_world (tree_with_value ''old'') [7]
          [quiet_tick, quiet_tick, quiet_tick, fault_tick EACCES 0])
     = (Some EACCES,
        log_line (LogRenameFailed [''q'', ''tmp'', ''state7''] [''q'', ''tmp'', ''build7'', ''state''])
          (supply_world (tmp_left ''fresh'') [] []))"
  by (simp add: set_eval path_eval world_eval tree_eval tmp_left_def)

theorem failed_Set_keeps_value_witness:
  "lookup (tree_with_value ''old'') (pjoin (dir (job_at [''q'', ''tmp''])) [''state'']) = Inr (File ''old'')
   \<and> fst (Set (job_at [''q'', ''tmp'']) ''state'' ''fresh''
           (supply_world (tree_with_value ''old'') [7] [quiet_tick, fault_tick ENOSPC 2])) = Some ENOSPC
   \<and> Get (job_at [''q'', ''tmp'']) ''state'' (supply_world (tmp_left ''fr'') [] [])
       = ((''old'', None), supply_world (tmp_left ''fr'') [] [])
   \<and> fst (Set (job_at [''q'', ''tmp'']) ''state'' ''fresh''
           (supply_world (tree_with_value ''old'') [7] [quiet_tick, quiet_tick, fault_tick EIO 0])) = Some EIO
   \<and> fst (Set (job_at [''q'', ''tmp'']) ''state'' ''fresh''
           (supply_world (tree_with_value ''old'') [7]
              [quiet_tick, quiet_tick, quiet_tick, fault_tick EACCES 0])) = Some EACCES
   \<and> Get (job_at [''q'', ''tmp'']) ''state'' (supply_world (tmp_left ''fresh'') [] [])
       = ((''old'', None), supply_world (tmp_left ''fresh'') [] [])"
proof -
  have a: "alone (supply_world t sfx sc)" if "list_all (\<lambda>t. others t = []) sc" for t sfx sc
    using that by (simp add: alone_def supply_world_def ex_world_def)
  have k: "lookup (fs (supply_world (tree_with_value ''old'') sfx sc))
             (pjoin (dir (job_at [''q'', ''tmp''])) [''state'']) = Inr (File ''old'')" for sfx sc
    by (simp add: supply_world_def ex_world_def tree_with_value_def path_eval tree_eval)
  have b: "fault (fst (begin_call (supply_world t sfx []))) = None"
    and c: "snd (begin_call (supply_world t sfx [])) = supply_world t sfx []" for t sfx
    by (simp_all add: begin_call_def supply_world_def ex_world_def)
  have d: "fault (fst (begin_call (log_line l (supply_world t sfx [])))) = None"
    and e: "snd (begin_call (log_line l (supply_world t sfx []))) = log_line l (supply_world t sfx [])"
    for l t sfx
    by (simp_all add: begin_call_def supply_world_def ex_world_def log_line_def)
  have 1: "Get (job_at [''q'', ''tmp'']) ''state'' (supply_world (tmp_left ''fr'') [] [])
       = ((''old'', None), supply_world (tmp_left ''fr'') [] [])"
    using failed_Set_keeps_value [OF a k set_fail_write] b c
    by (simp add: quiet_tick_def fault_tick_def)
  have 2: "Get (job_at [''q'', ''tmp'']) ''state'' (supply_world (tmp_left ''fresh'') [] [])
       = ((''old'', None), supply_world (tmp_left ''fresh'') [] [])"
    using failed_Set_keeps_value [OF a k set_fail_close] b c
    by (simp add: quiet_tick_def fault_tick_def)
  have 3: "lookup (tree_with_value ''old'') (pjoin (dir (job_at [''q'', ''tmp''])) [''state''])
       = Inr (File ''old'')"
    using k [of "[]" "[]"] by (simp add: supply_world_def ex_world_def)
  show ?thesis
    using 1 2 3 by (simp add: set_fail_write set_fail_close set_fail_rename)
qed

section \<open>Properties: OpenQueue\<close>

lemma fs_mkdir_cases:
  assumes "is_dir (lookup t (butlast p))"
  shows "(\<exists>n. lookup t p = Inr n \<and> fs_mkdir p t = Inl EEXIST)
       \<or> (lookup t p = Inl ENOENT \<and> p \<noteq> [] \<and> fs_mkdir p t = Inr (put p (Some (Dir [])) t))"
proof (cases "lookup t p")
  case (Inr n)
  with assms show ?thesis
    by (auto simp: fs_mkdir_def is_dir_def split: sum.splits node.splits)
next
  case (Inl e)
  then have ne: "p \<noteq> []" by auto
  from assms obtain es where d: "lookup t (butlast p) = Inr (Dir es)"
    by (auto simp: is_dir_def split: sum.splits node.splits)
  from lookup_child[OF d, of "last p" "[]"] ne Inl have "e = ENOENT"
    by (auto split: option.splits)
  with Inl d ne show ?thesis by (simp add: fs_mkdir_def)
qed

lemma ensured_same: "is_dir (lookup t p) \<Longrightarrow> ensured t p = t"
  by (auto simp: ensured_def or_same_def fs_mkdir_def is_dir_def split: sum.splits node.splits)

lemma ensured_made:
  assumes "is_dir (lookup t (butlast p))" "free_or_dir t p" "p \<noteq> []"
  shows "is_dir (lookup (ensured t p) p)"
  using fs_mkdir_cases[OF assms(1)]
proof
  assume "\<exists>n. lookup t p = Inr n \<and> fs_mkdir p t = Inl EEXIST"
  with assms(2) show ?thesis
    by (auto simp: ensured_def or_same_def free_or_dir_def is_dir_def split: node.splits)
next
  assume a: "lookup t p = Inl ENOENT \<and> p \<noteq> [] \<and> fs_mkdir p t = Inr (put p (Some (Dir [])) t)"
  then show ?thesis
    using put_same_dir[OF assms(3,1), of "Some (Dir [])"]
    by (simp add: ensured_def or_same_def is_dir_def)
qed

lemma ensured_other:
  assumes "q \<noteq> p" "\<not> prefix q p"
  shows "lookup (ensured t p) q = lookup t q"
proof (cases "fs_mkdir p t")
  case (Inl e)
  then show ?thesis by (simp add: ensured_def or_same_def)
next
  case (Inr t')
  then have pd: "is_dir (lookup t (butlast p))"
    by (auto simp: fs_mkdir_def is_dir_def split: sum.splits node.splits)
  from fs_mkdir_cases[OF pd] Inr have
    h: "lookup t p = Inl ENOENT" "p \<noteq> []" "t' = put p (Some (Dir [])) t" by auto
  show ?thesis
  proof (cases "prefix p q")
    case False
    with assms(2) show ?thesis by (simp add: ensured_def or_same_def Inr h(3) put_other)
  next
    case True
    with assms(1) obtain z zs where q: "q = p @ z # zs"
      by (metis prefixE list.exhaust append_Nil2)
    have "lookup t' p = Inr (Dir [])"
      unfolding h(3) using put_same_dir[OF h(2) pd, of "Some (Dir [])"] by simp
    then have "lookup t' q = Inl ENOENT" unfolding q by (simp add: lookup_append)
    moreover have "lookup t q = Inl ENOENT" unfolding q using h(1) by (simp add: lookup_append)
    ultimately show ?thesis by (simp add: ensured_def or_same_def Inr)
  qed
qed

lemma ensured_dir: "is_dir (lookup t q) \<Longrightarrow> is_dir (lookup (ensured t p) q)"
proof (cases "fs_mkdir p t")
  case (Inl e)
  assume "is_dir (lookup t q)"
  with Inl show ?thesis by (simp add: ensured_def or_same_def)
next
  case (Inr t')
  assume d: "is_dir (lookup t q)"
  from Inr have pd: "is_dir (lookup t (butlast p))"
    by (auto simp: fs_mkdir_def is_dir_def split: sum.splits node.splits)
  from fs_mkdir_cases[OF pd] Inr have
    h: "lookup t p = Inl ENOENT" "t' = put p (Some (Dir [])) t" by auto
  have e: "ensured t p = put p (Some (Dir [])) t" by (simp add: ensured_def or_same_def Inr h(2))
  from d h(1) have "q \<noteq> p" by (auto simp: is_dir_def)
  show ?thesis
  proof (cases "prefix q p")
    case True
    with \<open>q \<noteq> p\<close> have "strict_prefix q p" by (simp add: strict_prefix_def)
    then show ?thesis unfolding e using d by (rule put_ancestor)
  next
    case False
    with \<open>q \<noteq> p\<close> have "lookup (ensured t p) q = lookup t q" by (intro ensured_other)
    with d show ?thesis by simp
  qed
qed

lemma ensured_free:
  assumes "free_or_dir t q"
  shows "free_or_dir (ensured t p) q"
proof (cases "is_dir (lookup t q)")
  case True
  then have "is_dir (lookup (ensured t p) q)" by (rule ensured_dir)
  then show ?thesis by (auto simp: free_or_dir_def is_dir_def split: sum.splits node.splits)
next
  case nd: False
  show ?thesis
  proof (cases "fs_mkdir p t")
    case (Inl e)
    with assms show ?thesis by (simp add: ensured_def or_same_def)
  next
    case (Inr t')
    then have pd: "is_dir (lookup t (butlast p))"
      by (auto simp: fs_mkdir_def is_dir_def split: sum.splits node.splits)
    from fs_mkdir_cases[OF pd] Inr have
      h: "lookup t p = Inl ENOENT" "p \<noteq> []" "t' = put p (Some (Dir [])) t" by auto
    show ?thesis
    proof (cases "q = p")
      case True
      have "lookup t' p = Inr (Dir [])"
        unfolding h(3) using put_same_dir[OF h(2) pd, of "Some (Dir [])"] by simp
      with True show ?thesis by (simp add: ensured_def or_same_def Inr free_or_dir_def)
    next
      case False
      have "\<not> prefix q p"
      proof
        assume "prefix q p"
        with False have "strict_prefix q p" by (simp add: strict_prefix_def)
        then obtain z zs where "p = q @ z # zs" by (rule strict_prefixE')
        then have "butlast p = q @ butlast (z # zs)" by (simp add: butlast_append)
        with pd nd show False
          by (cases "lookup t q")
            (auto simp: lookup_append is_dir_def split: sum.splits node.splits list.splits if_splits)
      qed
      with False have "lookup (ensured t p) q = lookup t q" by (intro ensured_other)
      with assms show ?thesis by (simp add: free_or_dir_def)
    qed
  qed
qed

lemma world_fs_same: "w\<lparr>fs := fs w\<rparr> = w"
  by simp

lemma ensuredir_calm:
  assumes "sched w = []" "is_dir (lookup (fs w) (butlast (path_Join parts)))"
  shows "ensuredir parts w = (None, w\<lparr>fs := ensured (fs w) (path_Join parts)\<rparr>)"
  using fs_mkdir_cases[OF assms(2)] assms(1)
  by (auto simp: ensuredir_def os_Mkdir_def syscall_def begin_call_def ensured_def or_same_def
      os_IsExist_def)

lemma ensure_each_calm:
  assumes "sched w = []" "parents_ready (fs w) (map (\<lambda>x. path_Join [b, x]) ds)"
  shows "ensure_each b ds w = (None, w\<lparr>fs := foldl ensured (fs w) (map (\<lambda>x. path_Join [b, x]) ds)\<rparr>)"
  using assms
proof (induction ds arbitrary: w)
  case Nil
  then show ?case by simp
next
  case (Cons x ds)
  let ?w1 = "w\<lparr>fs := ensured (fs w) (path_Join [b, x])\<rparr>"
  from Cons.prems have e: "ensuredir [b, x] w = (None, ?w1)"
    by (intro ensuredir_calm) simp_all
  have "sched ?w1 = []" using Cons.prems(1) by simp
  moreover have "parents_ready (fs ?w1) (map (\<lambda>x. path_Join [b, x]) ds)"
    using Cons.prems(2) by simp
  ultimately have "ensure_each b ds ?w1 =
      (None, ?w1\<lparr>fs := foldl ensured (fs ?w1) (map (\<lambda>x. path_Join [b, x]) ds)\<rparr>)"
    by (rule Cons.IH)
  with e show ?case by simp
qed

lemma foldl_ensured_dir:
  "is_dir (lookup t q) \<Longrightarrow> is_dir (lookup (foldl ensured t ps) q)"
  by (induction ps arbitrary: t) (simp_all add: ensured_dir)

lemma foldl_ensured_free:
  "free_or_dir t q \<Longrightarrow> free_or_dir (foldl ensured t ps) q"
  by (induction ps arbitrary: t) (simp_all add: ensured_free)

lemma foldl_ensured_other:
  "\<forall>p \<in> set ps. q \<noteq> p \<and> \<not> prefix q p \<Longrightarrow> lookup (foldl ensured t ps) q = lookup t q"
  by (induction ps arbitrary: t) (simp_all add: ensured_other)

lemma foldl_ensured_same:
  "\<forall>p \<in> set ps. is_dir (lookup t p) \<Longrightarrow> foldl ensured t ps = t"
  by (induction ps arbitrary: t) (simp_all add: ensured_same)

lemma queue_dirs_eq:
  "queue_dirs d w =
     [path_Join [d] @ [''tmp''], path_Join [d] @ [''new''], path_Join [d] @ [''cur''],
      path_Join [d] @ [''done''], path_Join [d] @ [''failed''],
      path_Join [d] @ [''cur'', Itoa (getpid w)]]"
  by (simp add: queue_dirs_def path_Join2 path_Join2_mycur valid_names_fixed)

lemma queue_dirs_ready:
  assumes root: "is_dir (lookup t (path_Join [d]))"
    and free: "\<forall>p \<in> set (queue_dirs d w). free_or_dir t p"
  shows "parents_ready t (queue_dirs d w)"
    and "\<forall>p \<in> set (queue_dirs d w). is_dir (lookup (foldl ensured t (queue_dirs d w)) p)"
proof -
  let ?B = "path_Join [d]"
  let ?c = "?B @ [''cur'']"
  define t1 where "t1 = ensured t (?B @ [''tmp''])"
  define t2 where "t2 = ensured t1 (?B @ [''new''])"
  define t3 where "t3 = ensured t2 ?c"
  define t4 where "t4 = ensured t3 (?B @ [''done''])"
  define t5 where "t5 = ensured t4 (?B @ [''failed''])"
  define t6 where "t6 = ensured t5 (?c @ [Itoa (getpid w)])"
  note defs = t1_def t2_def t3_def t4_def t5_def t6_def
  have f: "free_or_dir t (?B @ [''tmp''])" "free_or_dir t (?B @ [''new''])" "free_or_dir t ?c"
    "free_or_dir t (?B @ [''done''])" "free_or_dir t (?B @ [''failed''])"
    "free_or_dir t (?c @ [Itoa (getpid w)])"
    using free by (simp_all add: queue_dirs_eq)
  have r: "is_dir (lookup t ?B)" "is_dir (lookup t1 ?B)" "is_dir (lookup t2 ?B)"
    "is_dir (lookup t3 ?B)" "is_dir (lookup t4 ?B)"
    using root by (simp_all add: defs ensured_dir)
  have m1: "is_dir (lookup t1 (?B @ [''tmp'']))"
    unfolding t1_def using r(1) f(1) by (intro ensured_made) simp_all
  have m2: "is_dir (lookup t2 (?B @ [''new'']))"
    unfolding t2_def using r(2) f(2) by (intro ensured_made) (simp_all add: defs ensured_free)
  have m3: "is_dir (lookup t3 ?c)"
    unfolding t3_def using r(3) f(3) by (intro ensured_made) (simp_all add: defs ensured_free)
  have m4: "is_dir (lookup t4 (?B @ [''done'']))"
    unfolding t4_def using r(4) f(4) by (intro ensured_made) (simp_all add: defs ensured_free)
  have m5: "is_dir (lookup t5 (?B @ [''failed'']))"
    unfolding t5_def using r(5) f(5) by (intro ensured_made) (simp_all add: defs ensured_free)
  have c5: "is_dir (lookup t5 ?c)" using m3 by (simp add: defs ensured_dir)
  have bl: "butlast (?c @ [Itoa (getpid w)]) = ?c" by (simp add: butlast_append)
  have f5: "free_or_dir t5 (?c @ [Itoa (getpid w)])" using f(6) by (simp add: defs ensured_free)
  have m6: "is_dir (lookup t6 (?c @ [Itoa (getpid w)]))"
    unfolding t6_def by (rule ensured_made) (use c5 f5 in \<open>simp_all only: bl\<close>, simp)
  show "parents_ready t (queue_dirs d w)"
    using r c5 bl by (simp add: queue_dirs_eq defs)
  have e: "foldl ensured t (queue_dirs d w) = t6"
    by (simp add: queue_dirs_eq defs)
  show "\<forall>p \<in> set (queue_dirs d w). is_dir (lookup (foldl ensured t (queue_dirs d w)) p)"
    unfolding e using m1 m2 m3 m4 m5 m6
    by (simp add: queue_dirs_eq) (simp add: defs ensured_dir)
qed

lemmas open_eval = OpenQueue_def ensuredir_def fs_mkdir_def os_IsExist_def mycur_def Itoa_4242

lemma open_empty:
  "OpenQueue ''q'' (ex_world empty_root []) = (Inr ex_queue, ex_world fresh_tree [])"
  by (simp add: open_eval path_eval world_eval empty_root_def fresh_tree_def)

lemma open_again:
  "OpenQueue ''q'' (ex_world fresh_tree []) = (Inr ex_queue, ex_world fresh_tree [])"
  by (simp add: open_eval path_eval world_eval fresh_tree_def)

text \<open>
  Claim C9 says that OpenQueue, called twice on the same existing root directory,
  succeeds both times and that the five fixed subdirectories and the owner slot exist
  after it. It fails on a root where one of these names is taken by a file: with a file
  \<^verbatim>\<open>cur\<close> the first call returns ENOTDIR for the owner slot; with a file \<^verbatim>\<open>new\<close> the
  call succeeds, mkdir answering EEXIST, and \<^verbatim>\<open>new\<close> is still the file.
\<close>

theorem OpenQueue_counterexample:
  "is_dir (lookup (fs (ex_world root_with_file_cur [])) (path_Join [''q'']))
   \<and> fst (OpenQueue ''q'' (ex_world root_with_file_cur [])) = Inl ENOTDIR
   \<and> is_dir (lookup (fs (ex_world root_with_file_new [])) (path_Join [''q'']))
   \<and> OpenQueue ''q'' (ex_world root_with_file_new []) = (Inr ex_queue, ex_world opened_with_file_new [])
   \<and> lookup opened_with_file_new [''q'', ''new''] = Inr (File ''x'')"
  by (simp add: open_eval path_eval world_eval is_dir_def root_with_file_cur_def
      root_with_file_new_def opened_with_file_new_def)

text \<open>
  Claim C9, amended. On an existing root directory in which none of the names
  \<^verbatim>\<open>tmp\<close>, \<^verbatim>\<open>new\<close>, \<^verbatim>\<open>cur\<close>, \<^verbatim>\<open>done\<close>, \<^verbatim>\<open>failed\<close> and the owner slot of the
  calling process is taken by a file, and with no failing system call and nobody else
  acting, OpenQueue called twice in succession succeeds both times with the same queue;
  after the first call the six directories exist and every other path at or below the
  root's entries is as it was; the second call changes nothing.
\<close>

theorem OpenQueue_twice:
  assumes calm: "sched w = []"
    and root: "is_dir (lookup (fs w) (path_Join [d]))"
    and free: "\<forall>p \<in> set (queue_dirs d w). free_or_dir (fs w) p"
  shows "\<exists>qu w1. OpenQueue d w = (Inr qu, w1) \<and> OpenQueue d w1 = (Inr qu, w1)
      \<and> basedir qu = d
      \<and> (\<forall>p \<in> set (queue_dirs d w). is_dir (lookup (fs w1) p))
      \<and> (\<forall>p. p \<notin> set (queue_dirs d w) \<and> \<not> prefix p (path_Join [d]) \<longrightarrow>
             lookup (fs w1) p = lookup (fs w) p)"
proof -
  let ?ds = "[''tmp'', ''new'', ''cur'', ''done'', ''failed'', mycur w]"
  let ?t1 = "foldl ensured (fs w) (queue_dirs d w)"
  let ?w1 = "w\<lparr>fs := ?t1\<rparr>"
  let ?qu = "\<lparr>basedir = d, mycurdir = []\<rparr>"
  have q: "map (\<lambda>x. path_Join [d, x]) ?ds = queue_dirs d w" by (simp add: queue_dirs_def)
  note qr = queue_dirs_ready[OF root free]
  have 1: "ensure_each d ?ds w = (None, ?w1)"
    using ensure_each_calm[OF calm, of d ?ds] qr(1) unfolding q by simp
  then have o1: "OpenQueue d w = (Inr ?qu, ?w1)" by (simp add: OpenQueue_def)
  have m: "mycur ?w1 = mycur w" by (simp add: mycur_def)
  have root1: "is_dir (lookup ?t1 (path_Join [d]))" using root by (rule foldl_ensured_dir)
  have free1: "\<forall>p \<in> set (queue_dirs d w). free_or_dir ?t1 p"
    using qr(2) by (auto simp: free_or_dir_def is_dir_def split: sum.splits node.splits)
  have same: "foldl ensured ?t1 (queue_dirs d w) = ?t1"
    using qr(2) by (rule foldl_ensured_same)
  have "ensure_each d ?ds ?w1 = (None, ?w1\<lparr>fs := foldl ensured (fs ?w1) (queue_dirs d w)\<rparr>)"
    using ensure_each_calm[of ?w1 d ?ds] calm queue_dirs_ready(1)[OF root1 free1] unfolding q
    by simp
  then have "ensure_each d ?ds ?w1 = (None, ?w1)" by (simp add: same)
  then have o2: "OpenQueue d ?w1 = (Inr ?qu, ?w1)" by (simp add: OpenQueue_def m)
  have fr: "lookup ?t1 p = lookup (fs w) p"
    if "p \<notin> set (queue_dirs d w)" "\<not> prefix p (path_Join [d])" for p
  proof (rule foldl_ensured_other, rule ballI)
    fix x assume x: "x \<in> set (queue_dirs d w)"
    with that(1) have ne: "p \<noteq> x" by auto
    have "\<not> prefix p x"
    proof
      assume "prefix p x"
      with x that show False
        by (auto simp: queue_dirs_eq prefix_snoc prefix_Cons prefix_append
            dest: prefix_order.antisym)
    qed
    with ne show "p \<noteq> x \<and> \<not> prefix p x" by simp
  qed
  show ?thesis
    using o1 o2 qr(2) fr by (intro exI[of _ ?qu] exI[of _ ?w1]) simp
qed

text \<open>The witness: an empty root directory is opened twice.\<close>

theorem OpenQueue_twice_witness:
  "sched (ex_world empty_root []) = []
   \<and> is_dir (lookup (fs (ex_world empty_root [])) (path_Join [''q'']))
   \<and> list_all (free_or_dir (fs (ex_world empty_root []))) (queue_dirs ''q'' (ex_world empty_root []))
   \<and> OpenQueue ''q'' (ex_world empty_root []) = (Inr ex_queue, ex_world fresh_tree [])
   \<and> OpenQueue ''q'' (ex_world fresh_tree []) = (Inr ex_queue, ex_world fresh_tree [])
   \<and> list_all (\<lambda>p. is_dir (lookup fresh_tree p)) (queue_dirs ''q'' (ex_world empty_root []))
   \<and> queue_dirs ''q'' (ex_world empty_root [])
       = [[''q'', ''tmp''], [''q'', ''new''], [''q'', ''cur''], [''q'', ''done''], [''q'', ''failed''],
          [''q'', ''cur'', ''4242'']]"
proof -
  have c: "sched (ex_world empty_root []) = []" by (simp add: ex_world_def)
  have r: "is_dir (lookup (fs (ex_world empty_root [])) (path_Join [''q'']))"
    by (simp add: ex_world_def empty_root_def is_dir_def path_eval)
  have q: "queue_dirs ''q'' (ex_world empty_root [])
       = [[''q'', ''tmp''], [''q'', ''new''], [''q'', ''cur''], [''q'', ''done''], [''q'', ''failed''],
          [''q'', ''cur'', ''4242'']]"
    by (simp add: queue_dirs_def mycur_def Itoa_4242 ex_world_def path_eval)
  have f: "\<forall>p \<in> set (queue_dirs ''q'' (ex_world empty_root [])).
      free_or_dir (fs (ex_world empty_root [])) p"
    unfolding q by (simp add: free_or_dir_def ex_world_def empty_root_def)
  from OpenQueue_twice [OF c r f] obtain qu w1 where
    o: "OpenQueue ''q'' (ex_world empty_root []) = (Inr qu, w1)"
       "\<forall>p \<in> set (queue_dirs ''q'' (ex_world empty_root [])). is_dir (lookup (fs w1) p)"
    by blast
  from o(1) open_empty have "w1 = ex_world fresh_tree []" by simp
  with o(2) have d: "\<forall>p \<in> set (queue_dirs ''q'' (ex_world empty_root [])). is_dir (lookup fresh_tree p)"
    by (simp add: ex_world_def)
  show ?thesis
    using c r f d q open_empty open_again by (simp add: list_all_iff)
qed

section \<open>Lemmas: the sweep of RescueDeadJobs\<close>

lemma names_ok_lookup: "names_ok t \<Longrightarrow> lookup t p = Inr n \<Longrightarrow> names_ok n"
proof (induction p arbitrary: t)
  case Nil
  then show ?case by simp
next
  case (Cons x p)
  show ?case
  proof (cases t)
    case (File b)
    with Cons.prems show ?thesis by simp
  next
    case (Dir es)
    with Cons.prems obtain c where c: "map_of es x = Some c" "lookup c p = Inr n"
      by (auto split: option.splits)
    then have "(x, c) \<in> set es" by (simp add: map_of_SomeD)
    with Cons.prems(1) Dir have "names_ok c" by (auto simp: list_all_iff)
    then show ?thesis using c(2) by (rule Cons.IH)
  qed
qed

lemma names_ok_child:
  assumes "names_ok t" "lookup t (p @ [x]) = Inr n"
  shows "valid_name x"
proof -
  from assms(2) obtain es where d: "lookup t p = Inr (Dir es)" "map_of es x = Some n"
    unfolding lookup_snoc_Inr by blast
  from names_ok_lookup[OF assms(1) d(1)] have "names_ok (Dir es)" .
  moreover have "(x, n) \<in> set es" using d(2) by (rule map_of_SomeD)
  ultimately show ?thesis by (auto simp: list_all_iff)
qed

lemma names_ok_slots: "names_ok t \<Longrightarrow> slot_names_ok c t"
  unfolding slot_names_ok_def
proof (intro allI impI)
  fix s x n assume "names_ok t" "lookup t (c @ [s, x]) = Inr n"
  then show "valid_name x" using names_ok_child[of t "c @ [s]" x n] by simp
qed

lemma within_refl: "within d nw t t"
  by (simp add: within_def)

lemma within_trans:
  assumes "within d nw t t1" "within d nw t1 t2"
  shows "within d nw t t2"
  unfolding within_def
proof (intro conjI allI impI)
  fix q assume "\<not> prefix d q \<and> \<not> prefix q d \<and> \<not> prefix nw q \<and> \<not> prefix q nw"
  then show "lookup t2 q = lookup t q"
    using assms unfolding within_def by simp
next
  fix y n assume "lookup t2 (d @ [y]) = Inr n"
  then show "\<exists>m. lookup t (d @ [y]) = Inr m"
    using assms unfolding within_def by blast
next
  fix y r assume a: "\<forall>m. lookup t (d @ [y]) \<noteq> Inr m"
  then have "\<forall>m. lookup t1 (d @ [y]) \<noteq> Inr m"
    using assms(1) unfolding within_def by blast
  then have "lookup t2 (nw @ y # r) = lookup t1 (nw @ y # r)"
    using assms(2) unfolding within_def by blast
  moreover have "lookup t1 (nw @ y # r) = lookup t (nw @ y # r)"
    using assms(1) a unfolding within_def by blast
  ultimately show "lookup t2 (nw @ y # r) = lookup t (nw @ y # r)" by simp
next
  assume "is_dir (lookup t nw)"
  then show "is_dir (lookup t2 nw)" using assms unfolding within_def by blast
next
  fix e assume a: "lookup t d = Inl e"
  then have "t1 = t" using assms(1) unfolding within_def by blast
  with a assms(2) show "t2 = t" unfolding within_def by blast
qed

lemma unrelated_below:
  assumes "\<not> prefix d nw" "\<not> prefix nw d"
  shows "\<not> prefix d (nw @ r)" "\<not> prefix (nw @ r) d"
  using assms by (auto simp: prefix_append dest: append_prefixD)

lemma within_rename:
  assumes r: "fs_rename (d @ [x]) (nw @ [x]) t = Inr t'"
    and u: "\<not> prefix d nw" "\<not> prefix nw d"
  shows "within d nw t t'"
proof -
  from fs_rename_unrelated_Inr[OF r u] obtain src oes nes where
    h: "lookup t d = Inr (Dir oes)" "lookup t nw = Inr (Dir nes)" "map_of oes x = Some src"
       "t' = put (nw @ [x]) (Some src) (put (d @ [x]) None t)"
    by blast
  note m = moved_lookup[OF h(1,2) u h(4)]
  show ?thesis
    unfolding within_def
  proof (intro conjI allI impI)
    fix q assume a: "\<not> prefix d q \<and> \<not> prefix q d \<and> \<not> prefix nw q \<and> \<not> prefix q nw"
    show "lookup t' q = lookup t q"
    proof (rule moved_other[OF h(4)])
      show "\<not> prefix q (d @ [x])" using a by (auto simp: prefix_snoc)
      show "\<not> prefix (d @ [x]) q" using a by (auto dest: append_prefixD)
      show "\<not> prefix q (nw @ [x])" using a by (auto simp: prefix_snoc)
      show "\<not> prefix (nw @ [x]) q" using a by (auto dest: append_prefixD)
    qed
  next
    fix y n assume "lookup t' (d @ [y]) = Inr n"
    then have "map_of (AList.delete x oes) y = Some n"
      using lookup_child[OF m(1), of y "[]"] by (auto split: option.splits)
    then have "map_of oes y = Some n" by (auto simp: delete_conv' split: if_splits)
    then show "\<exists>m. lookup t (d @ [y]) = Inr m"
      using lookup_child[OF h(1), of y "[]"] by simp
  next
    fix y r assume a: "\<forall>m. lookup t (d @ [y]) \<noteq> Inr m"
    have "y \<noteq> x"
    proof
      assume "y = x"
      with h(3) lookup_child[OF h(1), of x "[]"] a show False by simp
    qed
    then show "lookup t' (nw @ y # r) = lookup t (nw @ y # r)"
      using lookup_child[OF m(2), of y r] lookup_child[OF h(2), of y r]
      by (simp add: update_conv')
  next
    show "is_dir (lookup t' nw)" using m(2) by (simp add: is_dir_def)
  next
    fix e assume "lookup t d = Inl e"
    with h(1) show "t' = t" by simp
  qed
qed

lemma within_remove:
  assumes r: "fs_remove d t = Inr t'"
    and u: "\<not> prefix d nw" "\<not> prefix nw d"
  shows "within d nw t t'"
proof -
  from fs_remove_Inr[OF r] obtain es where
    h: "d \<noteq> []" "t' = put d None t" "lookup t (butlast d) = Inr (Dir es)" by blast
  have pd: "is_dir (lookup t (butlast d))" using h(3) by (simp add: is_dir_def)
  have gone: "lookup t' d = Inl ENOENT"
    unfolding h(2) using put_same_dir[OF h(1) pd, of None] by simp
  have ex: "\<exists>n. lookup t d = Inr n"
    using r h(1,3) lookup_child[OF h(3), of "last d" "[]"]
    by (auto simp: fs_remove_def split: option.splits if_splits node.splits)
  show ?thesis
    unfolding within_def
  proof (intro conjI allI impI)
    fix q assume "\<not> prefix d q \<and> \<not> prefix q d \<and> \<not> prefix nw q \<and> \<not> prefix q nw"
    then show "lookup t' q = lookup t q" unfolding h(2) by (simp add: put_other)
  next
    fix y n assume "lookup t' (d @ [y]) = Inr n"
    with gone show "\<exists>m. lookup t (d @ [y]) = Inr m" by (simp add: lookup_append)
  next
    fix y r
    show "lookup t' (nw @ y # r) = lookup t (nw @ y # r)"
      unfolding h(2) using unrelated_below[OF u, of "y # r"] by (simp add: put_other)
  next
    assume "is_dir (lookup t nw)"
    then show "is_dir (lookup t' nw)" unfolding h(2) using u by (simp add: put_other)
  next
    fix e assume "lookup t d = Inl e"
    with ex show "t' = t" by simp
  qed
qed

lemma cur_new_unrelated:
  "\<not> prefix (B @ ''cur'' # r) (B @ [''new''])" "\<not> prefix (B @ [''new'']) (B @ ''cur'' # r)"
  by simp_all

lemma within_slot_names_ok:
  assumes w: "within (B @ [''cur'', a]) (B @ [''new'']) t t'"
    and v: "slot_names_ok (B @ [''cur'']) t"
  shows "slot_names_ok (B @ [''cur'']) t'"
  unfolding slot_names_ok_def
proof (intro allI impI)
  fix s x n assume l: "lookup t' ((B @ [''cur'']) @ [s, x]) = Inr n"
  show "valid_name x"
  proof (cases "s = a")
    case True
    with l have "lookup t' ((B @ [''cur'', a]) @ [x]) = Inr n" by simp
    with w obtain m where "lookup t ((B @ [''cur'', a]) @ [x]) = Inr m"
      unfolding within_def by blast
    then have "lookup t ((B @ [''cur'']) @ [a, x]) = Inr m" by simp
    with v show ?thesis unfolding slot_names_ok_def by blast
  next
    case False
    have "lookup t' (B @ [''cur'', s, x]) = lookup t (B @ [''cur'', s, x])"
      using w False unfolding within_def by simp
    with l have "lookup t ((B @ [''cur'']) @ [s, x]) = Inr n" by simp
    with v show ?thesis unfolding slot_names_ok_def by blast
  qed
qed

lemma within_other_slot:
  assumes w: "within (B @ [''cur'', a]) (B @ [''new'']) t t'" and "s \<noteq> a"
  shows "lookup t' (B @ ''cur'' # s # r) = lookup t (B @ ''cur'' # s # r)"
  using assms unfolding within_def by simp

lemma readdirnames_alone:
  assumes "alone w" "readdirnames d w = ((names, err), w1)"
  shows "alone w1" "fs w1 = fs w" "procs w1 = procs w" "getpid w1 = getpid w"
    "\<forall>x \<in> set names. \<exists>n. lookup (fs w) (d @ [x]) = Inr n"
    "err = None \<Longrightarrow> fs_readdirnames d (fs w) = Inr names"
proof -
  obtain t0 w0 where b0: "begin_call w = (t0, w0)" by force
  have a0: "alone w0" "fs w0 = fs w" "procs w0 = procs w" "getpid w0 = getpid w"
    using begin_call_alone[OF assms(1)] begin_call_keeps[of w] b0 by simp_all
  obtain t2 w2 where b2: "begin_call w0 = (t2, w2)" by force
  have a2: "alone w2" "fs w2 = fs w" "procs w2 = procs w" "getpid w2 = getpid w"
    using begin_call_alone[OF a0(1)] begin_call_keeps[of w0] b2 a0 by simp_all
  have c: "w1 = w0 \<and> names = [] \<or>
     w1 = w2 \<and> (names = [] \<or> (\<exists>es k. lookup (fs w) d = Inr (Dir es)
        \<and> (names = take k (names_of es) \<or> names = names_of es \<and> err = None)))"
    using assms(2) b0 b2 a0 a2
    unfolding readdirnames_def os_Open_def File_Readdirnames_def fs_readdirnames_def
    by (auto simp: Let_def split: sum.splits node.splits option.splits prod.splits)
  from c a0 a2 show "alone w1" "fs w1 = fs w" "procs w1 = procs w" "getpid w1 = getpid w"
    by auto
  show "\<forall>x \<in> set names. \<exists>n. lookup (fs w) (d @ [x]) = Inr n"
  proof
    fix x assume x: "x \<in> set names"
    with c obtain es k where e: "lookup (fs w) d = Inr (Dir es)"
      "names = take k (names_of es) \<or> names = names_of es" by auto
    with x have "x \<in> set (names_of es)" by (auto dest: in_set_takeD)
    then obtain n where "map_of es x = Some n" by (auto simp: names_of_map_of)
    then show "\<exists>n. lookup (fs w) (d @ [x]) = Inr n"
      using lookup_child[OF e(1), of x "[]"] by simp
  qed
  show "fs_readdirnames d (fs w) = Inr names" if "err = None"
    using assms(2) b0 b2 a0 a2 that
    unfolding readdirnames_def os_Open_def File_Readdirnames_def fs_readdirnames_def
    by (auto simp: Let_def split: sum.splits node.splits option.splits prod.splits)
qed

lemma reschedule_alone:
  assumes "alone w" "valid_name x" "\<not> prefix d nw" "\<not> prefix nw d" "getNewDir qu = nw"
  shows "alone (reschedule qu p d w x) \<and> procs (reschedule qu p d w x) = procs w
     \<and> getpid (reschedule qu p d w x) = getpid w
     \<and> within d nw (fs w) (fs (reschedule qu p d w x))"
proof -
  obtain r w1 where s: "syscall (fs_rename (d @ [x]) (nw @ [x])) w = (r, w1)" by force
  note sa = syscall_alone[OF assms(1) s]
  have w: "within d nw (fs w) (fs w1)"
  proof (cases r)
    case None
    with sa(4) have "fs_rename (d @ [x]) (nw @ [x]) (fs w) = Inr (fs w1)" by simp
    then show ?thesis using assms(3,4) by (rule within_rename)
  next
    case (Some e)
    with sa(5) show ?thesis by (simp add: within_refl)
  qed
  show ?thesis
    using s sa(1,2,3) w assms(2,5)
    by (cases r) (simp_all add: reschedule_def os_Rename_def pjoin_valid1 log_line_keeps)
qed

lemma fold_reschedule_alone:
  assumes "alone w" "\<forall>x \<in> set xs. valid_name x" "\<not> prefix d nw" "\<not> prefix nw d"
    "getNewDir qu = nw"
  shows "alone (foldl (reschedule qu p d) w xs) \<and> procs (foldl (reschedule qu p d) w xs) = procs w
     \<and> getpid (foldl (reschedule qu p d) w xs) = getpid w
     \<and> within d nw (fs w) (fs (foldl (reschedule qu p d) w xs))"
  using assms(1,2)
proof (induction xs arbitrary: w)
  case Nil
  then show ?case by (simp add: within_refl)
next
  case (Cons x xs)
  from Cons.prems have v: "valid_name x" by simp
  note st = reschedule_alone[OF Cons.prems(1) v assms(3,4,5), of p]
  from st have a: "alone (reschedule qu p d w x)" by simp
  from Cons.prems have "\<forall>x \<in> set xs. valid_name x" by simp
  from Cons.IH[OF a this] st show ?case
    by (auto intro: within_trans)
qed

lemma rescueDeadJobsFrom_alone:
  assumes a: "alone w" and v: "slot_names_ok (getCurDir qu) (fs w)"
  shows "alone (rescueDeadJobsFrom qu p w) \<and> procs (rescueDeadJobsFrom qu p w) = procs w
     \<and> getpid (rescueDeadJobsFrom qu p w) = getpid w
     \<and> within (getWorkerDir qu p) (getNewDir qu) (fs w) (fs (rescueDeadJobsFrom qu p w))"
proof -
  let ?B = "path_Join [basedir qu]"
  let ?d = "getWorkerDir qu p"
  obtain names err w1 where r: "readdirnames ?d w = ((names, err), w1)"
    by (metis surj_pair)
  note ra = readdirnames_alone[OF a r]
  let ?w2 = "case err of Some e \<Rightarrow> log_line (LogCouldNotRescueFrom p ?d) w1 | None \<Rightarrow> w1"
  have w2: "alone ?w2" "fs ?w2 = fs w" "procs ?w2 = procs w" "getpid ?w2 = getpid w"
    using ra(1-4) by (simp_all add: log_line_keeps split: option.splits)
  have valid: "\<forall>x \<in> set names. valid_name x"
  proof
    fix x assume "x \<in> set names"
    with ra(5) obtain n where "lookup (fs w) (?d @ [x]) = Inr n" by blast
    then have "lookup (fs w) (getCurDir qu @ [Itoa p, x]) = Inr n"
      by (simp add: getWorkerDir_eq getCurDir_eq)
    with v show "valid_name x" unfolding slot_names_ok_def by blast
  qed
  have u: "\<not> prefix ?d (getNewDir qu)" "\<not> prefix (getNewDir qu) ?d"
    by (simp_all add: getWorkerDir_eq getNewDir_eq)
  from fold_reschedule_alone[OF w2(1) valid u refl, of p] w2
  have "alone (foldl (reschedule qu p ?d) ?w2 names)
     \<and> procs (foldl (reschedule qu p ?d) ?w2 names) = procs w
     \<and> getpid (foldl (reschedule qu p ?d) ?w2 names) = getpid w
     \<and> within ?d (getNewDir qu) (fs w) (fs (foldl (reschedule qu p ?d) ?w2 names))"
    by simp
  moreover have "rescueDeadJobsFrom qu p w = foldl (reschedule qu p ?d) ?w2 names"
    by (simp add: rescueDeadJobsFrom_def r Let_def)
  ultimately show ?thesis by simp
qed

lemma os_Remove_alone:
  assumes "alone w" "os_Remove d w = (r, w')" "\<not> prefix d nw" "\<not> prefix nw d"
  shows "alone w' \<and> procs w' = procs w \<and> getpid w' = getpid w \<and> within d nw (fs w) (fs w')"
proof -
  note sa = syscall_alone[OF assms(1) assms(2)[unfolded os_Remove_def]]
  have "within d nw (fs w) (fs w')"
  proof (cases r)
    case None
    with sa(4) have "fs_remove d (fs w) = Inr (fs w')" by simp
    then show ?thesis using assms(3,4) by (rule within_remove)
  next
    case (Some e)
    with sa(5) show ?thesis by (simp add: within_refl)
  qed
  with sa show ?thesis by simp
qed

text \<open>One entry of cur, processed by a process nobody disturbs.\<close>

lemma rescue_entry_alone:
  assumes a: "alone w" and v: "slot_names_ok (getCurDir qu) (fs w)"
  shows "alone (rescue_entry qu w s) \<and> procs (rescue_entry qu w s) = procs w
     \<and> getpid (rescue_entry qu w s) = getpid w
     \<and> (fs (rescue_entry qu w s) = fs w
        \<or> (\<exists>p. Atoi s = Inr p \<and> procs w p = Some ESRCH
              \<and> within (getWorkerDir qu p) (getNewDir qu) (fs w) (fs (rescue_entry qu w s))))"
proof (cases "Atoi s")
  case (Inl e)
  then show ?thesis using a by (simp add: rescue_entry_def log_line_keeps)
next
  case (Inr p)
  show ?thesis
  proof (cases "procs w p = Some ESRCH")
    case False
    then show ?thesis using a Inr
      by (auto simp: rescue_entry_def processExists_def syscall_Kill0_def log_line_keeps
          split: option.splits)
  next
    case True
    let ?w2 = "log_line (LogGoneAway p) w"
    let ?w3 = "rescueDeadJobsFrom qu p ?w2"
    have a2: "alone ?w2" and v2: "slot_names_ok (getCurDir qu) (fs ?w2)"
      using a v by (simp_all add: log_line_keeps)
    note r3 = rescueDeadJobsFrom_alone[OF a2 v2, of p]
    obtain r w4 where rm: "os_Remove (getWorkerDir qu p) ?w3 = (r, w4)" by force
    have u: "\<not> prefix (getWorkerDir qu p) (getNewDir qu)" "\<not> prefix (getNewDir qu) (getWorkerDir qu p)"
      by (simp_all add: getWorkerDir_eq getNewDir_eq)
    from r3 have a3: "alone ?w3" by simp
    note r4 = os_Remove_alone[OF a3 rm u]
    have e: "rescue_entry qu w s =
        (case r of Some err \<Rightarrow> log_line (LogRmdirFailed (getWorkerDir qu p) err) w4 | None \<Rightarrow> w4)"
      using Inr True rm
      by (simp add: rescue_entry_def processExists_def syscall_Kill0_def Let_def)
    have k: "alone (rescue_entry qu w s)" "procs (rescue_entry qu w s) = procs w"
      "getpid (rescue_entry qu w s) = getpid w" "fs (rescue_entry qu w s) = fs w4"
      using r3 r4 unfolding e by (simp_all add: log_line_keeps split: option.splits)
    have "within (getWorkerDir qu p) (getNewDir qu) (fs w) (fs w4)"
      using r3 r4 by (auto simp: log_line_keeps intro: within_trans)
    with k Inr True show ?thesis by auto
  qed
qed

text \<open>
  The sweep leaves alone every slot whose name does not parse to a process reported dead.
\<close>

lemma sweep_frame:
  assumes a: "alone w" and v: "slot_names_ok (getCurDir qu) (fs w)"
    and s: "\<forall>p. Atoi s = Inr p \<longrightarrow> procs w p \<noteq> Some ESRCH"
  shows "alone (foldl (rescue_entry qu) w names)
     \<and> procs (foldl (rescue_entry qu) w names) = procs w
     \<and> slot_names_ok (getCurDir qu) (fs (foldl (rescue_entry qu) w names))
     \<and> lookup (fs (foldl (rescue_entry qu) w names)) (getCurDir qu @ s # r)
         = lookup (fs w) (getCurDir qu @ s # r)"
  using a v s
proof (induction names arbitrary: w)
  case Nil
  then show ?case by simp
next
  case (Cons x names)
  let ?B = "path_Join [basedir qu]"
  let ?w1 = "rescue_entry qu w x"
  note st = rescue_entry_alone[OF Cons.prems(1,2), of x]
  have step: "slot_names_ok (getCurDir qu) (fs ?w1)
      \<and> lookup (fs ?w1) (getCurDir qu @ s # r) = lookup (fs w) (getCurDir qu @ s # r)"
  proof (cases "fs ?w1 = fs w")
    case True
    with Cons.prems(2) show ?thesis by simp
  next
    case False
    with st obtain p where p: "Atoi x = Inr p" "procs w p = Some ESRCH"
      "within (getWorkerDir qu p) (getNewDir qu) (fs w) (fs ?w1)" by blast
    have wi: "within (?B @ [''cur'', Itoa p]) (?B @ [''new'']) (fs w) (fs ?w1)"
      using p(3) by (simp add: getWorkerDir_eq getNewDir_eq)
    have ne: "s \<noteq> Itoa p"
    proof
      assume "s = Itoa p"
      moreover have "Atoi (Itoa p) = Inr p"
        using Atoi_range[OF p(1)] by (intro Atoi_Itoa) simp_all
      ultimately have "Atoi s = Inr p" by simp
      with Cons.prems(3) p(2) show False by blast
    qed
    have "slot_names_ok (?B @ [''cur'']) (fs ?w1)"
      using wi Cons.prems(2) unfolding getCurDir_eq by (rule within_slot_names_ok)
    moreover have "lookup (fs ?w1) (?B @ ''cur'' # s # r) = lookup (fs w) (?B @ ''cur'' # s # r)"
      using wi ne by (rule within_other_slot)
    ultimately show ?thesis by (simp add: getCurDir_eq)
  qed
  have s1: "\<forall>p. Atoi s = Inr p \<longrightarrow> procs ?w1 p \<noteq> Some ESRCH"
    using Cons.prems(3) st by simp
  from st have a1: "alone ?w1" by simp
  from step have v1: "slot_names_ok (getCurDir qu) (fs ?w1)" by simp
  from Cons.IH[OF a1 v1 s1] st step show ?case by simp
qed

lemma logged_syscall: "logged (snd (syscall f w)) = logged w"
  using begin_call_keeps(5)[of w]
  by (auto simp: syscall_def Let_def split: prod.splits option.splits sum.splits)

lemma logged_readdirnames: "logged (snd (readdirnames d w)) = logged w"
proof -
  have a: "logged (snd (os_Open d w)) = logged w"
    using begin_call_keeps(5)[of w]
    by (auto simp: os_Open_def Let_def split: prod.splits option.splits sum.splits)
  have b: "logged (snd (File_Readdirnames h v)) = logged v" for h v
    using begin_call_keeps(5)[of v]
    by (auto simp: File_Readdirnames_def Let_def split: prod.splits option.splits sum.splits)
  show ?thesis
    using a b by (auto simp: readdirnames_def split: prod.splits sum.splits)
qed

lemma logged_log_line: "logged (log_line l w) = logged w @ [l]"
  by (simp add: log_line_def)

lemma logged_reschedule: "prefix (logged w) (logged (reschedule qu p d w x))"
  using logged_syscall[of "fs_rename (pjoin d [x]) (pjoin (getNewDir qu) [x])" w]
  by (auto simp: reschedule_def os_Rename_def logged_log_line split: prod.splits option.splits)

lemma logged_fold_reschedule: "prefix (logged w) (logged (foldl (reschedule qu p d) w xs))"
proof (induction xs arbitrary: w)
  case Nil
  show ?case by simp
next
  case (Cons x xs)
  have "prefix (logged w) (logged (reschedule qu p d w x))" by (rule logged_reschedule)
  also have "prefix \<dots> (logged (foldl (reschedule qu p d) (reschedule qu p d w x) xs))"
    by (rule Cons.IH)
  finally show ?case by simp
qed

lemma logged_rescueDeadJobsFrom: "prefix (logged w) (logged (rescueDeadJobsFrom qu p w))"
proof -
  obtain names err w1 where r: "readdirnames (getWorkerDir qu p) w = ((names, err), w1)"
    by (metis surj_pair)
  then have l: "logged w1 = logged w" using logged_readdirnames[of "getWorkerDir qu p" w] by simp
  let ?w2 = "case err of Some e \<Rightarrow> log_line (LogCouldNotRescueFrom p (getWorkerDir qu p)) w1 | None \<Rightarrow> w1"
  have "prefix (logged w) (logged ?w2)"
    using l by (simp add: logged_log_line split: option.splits)
  also have "prefix \<dots> (logged (foldl (reschedule qu p (getWorkerDir qu p)) ?w2 names))"
    by (rule logged_fold_reschedule)
  finally show ?thesis by (simp add: rescueDeadJobsFrom_def r Let_def)
qed

lemma logged_rescue_entry: "prefix (logged w) (logged (rescue_entry qu w s))"
proof (cases "Atoi s")
  case (Inl e)
  then show ?thesis by (simp add: rescue_entry_def logged_log_line)
next
  case (Inr p)
  show ?thesis
  proof (cases "procs w p = Some ESRCH")
    case False
    then show ?thesis using Inr
      by (auto simp: rescue_entry_def processExists_def syscall_Kill0_def logged_log_line
          split: option.splits)
  next
    case True
    let ?w2 = "log_line (LogGoneAway p) w"
    let ?w3 = "rescueDeadJobsFrom qu p ?w2"
    obtain r w4 where rm: "os_Remove (getWorkerDir qu p) ?w3 = (r, w4)" by force
    then have l4: "logged w4 = logged ?w3"
      using logged_syscall[of "fs_remove (getWorkerDir qu p)" ?w3] by (simp add: os_Remove_def)
    have e: "rescue_entry qu w s =
        (case r of Some err \<Rightarrow> log_line (LogRmdirFailed (getWorkerDir qu p) err) w4 | None \<Rightarrow> w4)"
      using Inr True rm
      by (simp add: rescue_entry_def processExists_def syscall_Kill0_def Let_def)
    have "prefix (logged w) (logged ?w2)" by (simp add: logged_log_line)
    also have "prefix \<dots> (logged ?w3)" by (rule logged_rescueDeadJobsFrom)
    also have "prefix \<dots> (logged (rescue_entry qu w s))"
      unfolding e using l4 by (simp add: logged_log_line split: option.splits)
    finally show ?thesis .
  qed
qed

lemma logged_sweep: "prefix (logged w) (logged (foldl (rescue_entry qu) w xs))"
proof (induction xs arbitrary: w)
  case Nil
  show ?case by simp
next
  case (Cons x xs)
  have "prefix (logged w) (logged (rescue_entry qu w x))" by (rule logged_rescue_entry)
  also have "prefix \<dots> (logged (foldl (rescue_entry qu) (rescue_entry qu w x) xs))"
    by (rule Cons.IH)
  finally show ?case by simp
qed

lemma rescue_entry_probe_error:
  assumes "Atoi s = Inr p" "procs v p = Some err" "err \<noteq> ESRCH"
  shows "rescue_entry qu v s = log_line (LogKillFailed p err) (log_line (LogKillFailed p err) v)"
  using assms by (simp add: rescue_entry_def processExists_def syscall_Kill0_def)

lemma rescue_entry_keeps:
  assumes a: "alone w" and v: "slot_names_ok (getCurDir qu) (fs w)"
  shows "alone (rescue_entry qu w s)" "procs (rescue_entry qu w s) = procs w"
    "slot_names_ok (getCurDir qu) (fs (rescue_entry qu w s))"
proof -
  note st = rescue_entry_alone[OF a v, of s]
  from st show "alone (rescue_entry qu w s)" "procs (rescue_entry qu w s) = procs w" by simp_all
  show "slot_names_ok (getCurDir qu) (fs (rescue_entry qu w s))"
  proof (cases "fs (rescue_entry qu w s) = fs w")
    case True
    with v show ?thesis by simp
  next
    case False
    with st obtain p where
      "within (getWorkerDir qu p) (getNewDir qu) (fs w) (fs (rescue_entry qu w s))" by blast
    then have "within (path_Join [basedir qu] @ [''cur'', Itoa p]) (path_Join [basedir qu] @ [''new''])
        (fs w) (fs (rescue_entry qu w s))"
      by (simp add: getWorkerDir_eq getNewDir_eq)
    from within_slot_names_ok[OF this v[unfolded getCurDir_eq]] show ?thesis
      by (simp add: getCurDir_eq)
  qed
qed

lemma sweep_logs_probe_error:
  assumes "alone w" "slot_names_ok (getCurDir qu) (fs w)"
    and "Atoi s = Inr p" "procs w p = Some err" "err \<noteq> ESRCH" "s \<in> set names"
  shows "LogKillFailed p err \<in> set (logged (foldl (rescue_entry qu) w names))"
  using assms(1,2,4,6)
proof (induction names arbitrary: w)
  case Nil
  then show ?case by simp
next
  case (Cons x names)
  let ?w1 = "rescue_entry qu w x"
  note k = rescue_entry_keeps[OF Cons.prems(1,2), of x]
  show ?case
  proof (cases "x = s")
    case True
    have "?w1 = log_line (LogKillFailed p err) (log_line (LogKillFailed p err) w)"
      unfolding True using assms(3) Cons.prems(3) assms(5) by (rule rescue_entry_probe_error)
    then have "LogKillFailed p err \<in> set (logged ?w1)" by (simp add: logged_log_line)
    moreover have "prefix (logged ?w1) (logged (foldl (rescue_entry qu) ?w1 names))"
      by (rule logged_sweep)
    ultimately show ?thesis using set_mono_prefix by fastforce
  next
    case False
    with Cons.prems(4) have "s \<in> set names" by simp
    moreover have "procs ?w1 p = Some err" using k(2) Cons.prems(3) by simp
    ultimately show ?thesis using Cons.IH[OF k(1) k(3)] by simp
  qed
qed

lemmas sweep_eval = RescueDeadJobs_def rescue_entry_def rescueDeadJobsFrom_def reschedule_def
  processExists_def syscall_Kill0_def ex_procs_def log_line_def fs_rename_def fs_remove_def
  Atoi_def Itoa_def digit_val_def digit_chars_def digits10.simps Let_def

lemma sweep_run:
  "RescueDeadJobs ex_queue (ex_world sweep_tree [])
     = (None, (ex_world swept_tree [])\<lparr>logged := swept_log\<rparr>)"
  by (simp add: sweep_eval path_eval world_eval queue_tree_def sweep_tree_def swept_tree_def
      swept_log_def)

section \<open>Properties: an owner that cannot be probed\<close>

text \<open>
  Claim C10. During RescueDeadJobs an owner whose liveness probe returns an error is
  logged and skipped: at its turn nothing happens but the two log lines, after the sweep
  its slot and all the jobs in it are as they were, and the log has the line of the
  failed probe. Jobs are rescued from an owner slot only when the probe reports the owner
  dead: the sweep leaves every slot as it was whose name does not parse to a process
  identifier that the probe answers with ESRCH. Nobody else acts during the sweep; its
  system calls may fail.
\<close>

theorem probe_error_skips_owner:
  assumes alone: "alone w" and ok: "names_ok (fs w)"
    and atoi: "Atoi s = Inr p" and probe: "procs w p = Some err" "err \<noteq> ESRCH"
    and res: "RescueDeadJobs qu w = (r, w')"
  shows "lookup (fs w') (getCurDir qu @ [s]) = lookup (fs w) (getCurDir qu @ [s])
     \<and> (\<forall>v. procs v = procs w \<longrightarrow>
           rescue_entry qu v s = log_line (LogKillFailed p err) (log_line (LogKillFailed p err) v))
     \<and> (\<forall>names w1. readdirnames (getCurDir qu) w = ((names, None), w1) \<and> s \<in> set names \<longrightarrow>
           LogKillFailed p err \<in> set (logged w'))
     \<and> (\<forall>s'. (\<forall>p'. Atoi s' = Inr p' \<longrightarrow> procs w p' \<noteq> Some ESRCH) \<longrightarrow>
           lookup (fs w') (getCurDir qu @ [s']) = lookup (fs w) (getCurDir qu @ [s']))"
proof -
  obtain names e w1 where rd: "readdirnames (getCurDir qu) w = ((names, e), w1)"
    by (metis surj_pair)
  note ra = readdirnames_alone[OF alone rd]
  have v1: "slot_names_ok (getCurDir qu) (fs w1)"
    using names_ok_slots[OF ok] ra(2) by simp
  have frame: "lookup (fs w') (getCurDir qu @ [s']) = lookup (fs w) (getCurDir qu @ [s'])"
    if "\<forall>p'. Atoi s' = Inr p' \<longrightarrow> procs w p' \<noteq> Some ESRCH" for s'
  proof (cases e)
    case (Some x)
    with res rd have "w' = log_line (LogCouldNotRescue (getCurDir qu)) w1"
      by (simp add: RescueDeadJobs_def Let_def)
    with ra(2) show ?thesis by (simp add: log_line_keeps)
  next
    case None
    with res rd have w': "w' = foldl (rescue_entry qu) w1 names"
      by (simp add: RescueDeadJobs_def Let_def)
    have "\<forall>p'. Atoi s' = Inr p' \<longrightarrow> procs w1 p' \<noteq> Some ESRCH" using that ra(3) by simp
    from sweep_frame[OF ra(1) v1 this, of names "[]"] ra(2) show ?thesis by (simp add: w')
  qed
  have 1: "lookup (fs w') (getCurDir qu @ [s]) = lookup (fs w) (getCurDir qu @ [s])"
    using atoi probe by (intro frame) auto
  have 2: "rescue_entry qu v s = log_line (LogKillFailed p err) (log_line (LogKillFailed p err) v)"
    if "procs v = procs w" for v
    using atoi probe that by (intro rescue_entry_probe_error) simp_all
  have 3: "LogKillFailed p err \<in> set (logged w')"
    if "readdirnames (getCurDir qu) w = ((names', None), w1')" "s \<in> set names'" for names' w1'
  proof -
    from that(1) rd have n: "names' = names" "e = None" "w1' = w1" by simp_all
    with res rd have w': "w' = foldl (rescue_entry qu) w1 names"
      by (simp add: RescueDeadJobs_def Let_def)
    have "procs w1 p = Some err" using probe(1) ra(3) by simp
    from sweep_logs_probe_error[OF ra(1) v1 atoi this probe(2)] that(2) n(1) show ?thesis
      by (simp add: w')
  qed
  show ?thesis using 1 2 3 frame by blast
qed

text \<open>
  The witness: in the example sweep process 1 cannot be signalled (EPERM); its slot
  keeps its job and the failed probe is in the log.
\<close>

theorem probe_error_skips_owner_witness:
  "alone (ex_world sweep_tree []) \<and> names_ok (fs (ex_world sweep_tree []))
   \<and> Atoi ''1'' = Inr 1 \<and> procs (ex_world sweep_tree []) 1 = Some EPERM
   \<and> RescueDeadJobs ex_queue (ex_world sweep_tree [])
        = (None, (ex_world swept_tree [])\<lparr>logged := swept_log\<rparr>)
   \<and> lookup swept_tree (getCurDir ex_queue @ [''1'']) = Inr (Dir [(''baz'', Dir [])])
   \<and> LogKillFailed 1 EPERM \<in> set swept_log"
proof -
  have a: "alone (ex_world sweep_tree [])" by (simp add: alone_def ex_world_def)
  have n: "names_ok (fs (ex_world sweep_tree []))"
    by (simp add: ex_world_def sweep_tree_def queue_tree_def valid_name_def)
  have p: "Atoi ''1'' = Inr 1"
    by (simp add: Atoi_def digit_val_def digit_chars_def)
  have e: "procs (ex_world sweep_tree []) 1 = Some EPERM" "EPERM \<noteq> ESRCH"
    by (simp_all add: ex_world_def ex_procs_def)
  have b: "lookup (fs (ex_world sweep_tree [])) (getCurDir ex_queue @ [''1'']) = Inr (Dir [(''baz'', Dir [])])"
    by (simp add: ex_world_def ex_queue_def sweep_tree_def queue_tree_def path_eval)
  from probe_error_skips_owner [OF a n p e sweep_run] b
  have "lookup swept_tree (getCurDir ex_queue @ [''1'']) = Inr (Dir [(''baz'', Dir [])])"
    by (simp add: ex_world_def)
  then show ?thesis
    using a n p e sweep_run by (simp add: swept_log_def)
qed

section \<open>Lemmas: rescuing the jobs of a dead owner\<close>

lemma calm_alone: "sched w = [] \<Longrightarrow> alone w"
  by (simp add: alone_def)

lemma syscall_calm:
  assumes "sched w = []"
  shows "syscall f w = (case f (fs w) of Inl e \<Rightarrow> (Some e, w) | Inr t' \<Rightarrow> (None, w\<lparr>fs := t'\<rparr>))"
  using assms by (simp add: syscall_def begin_call_def split: sum.splits)

lemma calm_syscall: "sched w = [] \<Longrightarrow> sched (snd (syscall f w)) = []"
  by (simp add: syscall_calm split: sum.splits)

lemma calm_readdirnames: "sched w = [] \<Longrightarrow> sched (snd (readdirnames d w)) = []"
  by (auto simp: readdirnames_def os_Open_def File_Readdirnames_def begin_call_def Let_def
      split: sum.splits prod.splits)

lemma calm_reschedule: "sched w = [] \<Longrightarrow> sched (reschedule qu p d w x) = []"
  using calm_syscall[of w "fs_rename (pjoin d [x]) (pjoin (getNewDir qu) [x])"]
  by (auto simp: reschedule_def os_Rename_def log_line_keeps split: prod.splits option.splits)

lemma calm_fold_reschedule: "sched w = [] \<Longrightarrow> sched (foldl (reschedule qu p d) w xs) = []"
  by (induction xs arbitrary: w) (simp_all add: calm_reschedule)

lemma calm_rescueDeadJobsFrom: "sched w = [] \<Longrightarrow> sched (rescueDeadJobsFrom qu p w) = []"
  using calm_readdirnames[of w "getWorkerDir qu p"]
  by (auto simp: rescueDeadJobsFrom_def Let_def log_line_keeps calm_fold_reschedule
      split: prod.splits option.splits)

lemma calm_rescue_entry: "sched w = [] \<Longrightarrow> sched (rescue_entry qu w s) = []"
proof (cases "Atoi s")
  case (Inl e)
  assume "sched w = []"
  with Inl show ?thesis by (simp add: rescue_entry_def log_line_keeps)
next
  case (Inr p)
  assume c: "sched w = []"
  show ?thesis
  proof (cases "procs w p = Some ESRCH")
    case False
    then show ?thesis using Inr c
      by (auto simp: rescue_entry_def processExists_def syscall_Kill0_def log_line_keeps
          split: option.splits)
  next
    case True
    let ?w3 = "rescueDeadJobsFrom qu p (log_line (LogGoneAway p) w)"
    obtain r w4 where rm: "os_Remove (getWorkerDir qu p) ?w3 = (r, w4)" by force
    have "sched ?w3 = []" using c by (intro calm_rescueDeadJobsFrom) (simp add: log_line_keeps)
    from calm_syscall[OF this, of "fs_remove (getWorkerDir qu p)"] rm
    have c4: "sched w4 = []" by (simp add: os_Remove_def)
    have e: "rescue_entry qu w s =
        (case r of Some err \<Rightarrow> log_line (LogRmdirFailed (getWorkerDir qu p) err) w4 | None \<Rightarrow> w4)"
      using Inr True rm
      by (simp add: rescue_entry_def processExists_def syscall_Kill0_def Let_def)
    show ?thesis unfolding e using c4 by (simp add: log_line_keeps split: option.splits)
  qed
qed

lemma reschedule_calm_moves:
  assumes c: "sched w = []" and v: "valid_name x"
    and u: "\<not> prefix d nw" "\<not> prefix nw d" and n: "getNewDir qu = nw"
    and d: "lookup (fs w) d = Inr (Dir es)" "map_of es x = Some src"
    and nw: "lookup (fs w) nw = Inr (Dir ns)" "map_of ns x = None"
  shows "lookup (fs (reschedule qu p d w x)) d = Inr (Dir (AList.delete x es))
     \<and> lookup (fs (reschedule qu p d w x)) nw = Inr (Dir (AList.update x src ns))"
proof -
  let ?t' = "put (nw @ [x]) (Some src) (put (d @ [x]) None (fs w))"
  have r: "fs_rename (d @ [x]) (nw @ [x]) (fs w) = Inr ?t'"
    using d(1,2) nw u by (rule fs_rename_succeeds)
  have "reschedule qu p d w x = log_line (LogRescheduled x p) (w\<lparr>fs := ?t'\<rparr>)"
    using v n r by (simp add: reschedule_def os_Rename_def syscall_calm[OF c] pjoin_valid1)
  then have "fs (reschedule qu p d w x) = ?t'" by (simp add: log_line_keeps)
  with moved_lookup[OF d(1) nw(1) u refl, of x src x] show ?thesis by simp
qed

lemma rescue_all_calm:
  assumes "sched w = []" "distinct xs" "\<forall>x \<in> set xs. valid_name x"
    and u: "\<not> prefix d nw" "\<not> prefix nw d" and n: "getNewDir qu = nw"
    and "lookup (fs w) d = Inr (Dir es)" "lookup (fs w) nw = Inr (Dir ns)"
    and "set (names_of es) = set xs" "\<forall>x \<in> set xs. map_of ns x = None"
  shows "lookup (fs (foldl (reschedule qu p d) w xs)) d = Inr (Dir [])
     \<and> (\<forall>x n. map_of es x = Some n \<longrightarrow>
           lookup (fs (foldl (reschedule qu p d) w xs)) (nw @ [x]) = Inr n)"
  using assms(1,2,3,7,8,9,10)
proof (induction xs arbitrary: w es ns)
  case Nil
  then have "es = []" by (simp add: names_of_set)
  with Nil show ?case by simp
next
  case (Cons x xs)
  let ?w1 = "reschedule qu p d w x"
  let ?wf = "foldl (reschedule qu p d) ?w1 xs"
  from Cons.prems(6) have "x \<in> set (names_of es)" by simp
  then obtain src where src: "map_of es x = Some src" by (auto simp: names_of_map_of)
  have v: "valid_name x" and nx: "map_of ns x = None" using Cons.prems(3,7) by simp_all
  note m = reschedule_calm_moves[OF Cons.prems(1) v u n Cons.prems(4) src Cons.prems(5) nx, of p]
  have c1: "sched ?w1 = []" using Cons.prems(1) by (rule calm_reschedule)
  have xn: "x \<notin> set xs" and dx: "distinct xs" using Cons.prems(2) by simp_all
  have s1: "set (names_of (AList.delete x es)) = set xs"
  proof (intro set_eqI)
    fix y
    have "y \<in> set (names_of (AList.delete x es)) \<longleftrightarrow> y \<noteq> x \<and> y \<in> set (names_of es)"
      by (simp add: names_of_map_of delete_conv')
    with Cons.prems(6) xn show "y \<in> set (names_of (AList.delete x es)) \<longleftrightarrow> y \<in> set xs"
      by auto
  qed
  have n1: "\<forall>y \<in> set xs. map_of (AList.update x src ns) y = None"
    using Cons.prems(7) xn by (auto simp: update_conv')
  have v1: "\<forall>y \<in> set xs. valid_name y" using Cons.prems(3) by simp
  from Cons.IH[OF c1 dx v1 _ _ s1 n1] m have
    ih: "lookup (fs ?wf) d = Inr (Dir [])"
        "\<forall>y n. map_of (AList.delete x es) y = Some n \<longrightarrow> lookup (fs ?wf) (nw @ [y]) = Inr n"
    by auto
  have wi: "within d nw (fs ?w1) (fs ?wf)"
    using fold_reschedule_alone[OF calm_alone[OF c1] v1 u n, of p] by simp
  have gone: "\<forall>m. lookup (fs ?w1) (d @ [x]) \<noteq> Inr m"
    using m lookup_child[of "fs ?w1" d "AList.delete x es" x "[]"] by (simp add: delete_conv')
  have here: "lookup (fs ?w1) (nw @ [x]) = Inr src"
    using m lookup_child[of "fs ?w1" nw "AList.update x src ns" x "[]"] by (simp add: update_conv')
  have keep: "lookup (fs ?wf) (nw @ [x]) = Inr src"
    using wi gone here unfolding within_def by (metis append_Cons append_Nil)
  have "lookup (fs ?wf) (nw @ [y]) = Inr n" if "map_of es y = Some n" for y n
  proof (cases "y = x")
    case True
    with that src keep show ?thesis by simp
  next
    case False
    with that have "map_of (AList.delete x es) y = Some n" by (simp add: delete_conv')
    with ih(2) show ?thesis by blast
  qed
  with ih(1) show ?case by simp
qed

lemma rescue_dead_calm:
  assumes c: "sched w = []" and v: "slot_names_ok (getCurDir qu) (fs w)"
    and pend: "pending (path_Join [basedir qu]) s jes (fs w)"
    and a: "Atoi x = Inr p" "Itoa p = s" and dead: "procs w p = Some ESRCH"
  shows "rescued (path_Join [basedir qu]) s jes (fs (rescue_entry qu w x))"
proof -
  let ?B = "path_Join [basedir qu]"
  let ?d = "?B @ [''cur'', s]"
  let ?nw = "?B @ [''new'']"
  have d: "getWorkerDir qu p = ?d" using a(2) by (simp add: getWorkerDir_eq)
  have n: "getNewDir qu = ?nw" by (rule getNewDir_eq)
  let ?w2 = "log_line (LogGoneAway p) w"
  have c2: "sched ?w2 = []" and f2: "fs ?w2 = fs w" using c by (simp_all add: log_line_keeps)
  from pend have sl: "lookup (fs w) ?d = Inr (Dir jes)"
    and nd: "is_dir (lookup (fs w) ?nw)"
    and fr: "\<forall>y \<in> set (names_of jes). lookup (fs w) (?B @ [''new'', y]) = Inl ENOENT"
    by (simp_all add: pending_def)
  from nd obtain nes where nes: "lookup (fs w) ?nw = Inr (Dir nes)"
    by (auto simp: is_dir_def split: sum.splits node.splits)
  have free: "\<forall>y \<in> set (names_of jes). map_of nes y = None"
  proof
    fix y assume "y \<in> set (names_of jes)"
    with fr have "lookup (fs w) (?nw @ [y]) = Inl ENOENT" by simp
    then show "map_of nes y = None"
      using lookup_child[OF nes, of y "[]"] by (auto split: option.splits)
  qed
  have valid: "\<forall>y \<in> set (names_of jes). valid_name y"
  proof
    fix y assume "y \<in> set (names_of jes)"
    then obtain m where "map_of jes y = Some m" by (auto simp: names_of_map_of)
    then have "lookup (fs w) (getCurDir qu @ [s, y]) = Inr m"
      using lookup_child[OF sl, of y "[]"] by (simp add: getCurDir_eq)
    with v show "valid_name y" unfolding slot_names_ok_def by blast
  qed
  have rd: "readdirnames ?d ?w2 = ((names_of jes, None), ?w2)"
    using c2 by (rule readdirnames_calm) (simp add: fs_readdirnames_def f2 sl)
  let ?w3 = "foldl (reschedule qu p ?d) ?w2 (names_of jes)"
  have w3: "rescueDeadJobsFrom qu p ?w2 = ?w3"
    by (simp add: rescueDeadJobsFrom_def d rd)
  have u: "\<not> prefix ?d ?nw" "\<not> prefix ?nw ?d" by simp_all
  have sl2: "lookup (fs ?w2) ?d = Inr (Dir jes)" and nes2: "lookup (fs ?w2) ?nw = Inr (Dir nes)"
    using sl nes by (simp_all add: f2)
  from rescue_all_calm[OF c2 names_of_distinct valid u n sl2 nes2 refl free]
  have r3: "lookup (fs ?w3) ?d = Inr (Dir [])"
    "\<forall>y m. map_of jes y = Some m \<longrightarrow> lookup (fs ?w3) (?nw @ [y]) = Inr m"
    by simp_all
  have c3: "sched ?w3 = []" using c2 by (rule calm_fold_reschedule)
  from r3(1) have "lookup (fs ?w3) ((?B @ [''cur'']) @ [s]) = Inr (Dir [])" by simp
  then obtain ces where ces: "lookup (fs ?w3) (?B @ [''cur'']) = Inr (Dir ces)"
    "map_of ces s = Some (Dir [])" unfolding lookup_snoc_Inr by blast
  have rmv: "fs_remove ?d (fs ?w3) = Inr (put ?d None (fs ?w3))"
    using fs_remove_succeeds[OF ces] by simp
  have rm: "os_Remove ?d ?w3 = (None, ?w3\<lparr>fs := put ?d None (fs ?w3)\<rparr>)"
    by (simp add: os_Remove_def syscall_calm[OF c3] rmv)
  have e: "rescue_entry qu w x = ?w3\<lparr>fs := put ?d None (fs ?w3)\<rparr>"
    using a(1) dead
    by (simp add: rescue_entry_def processExists_def syscall_Kill0_def Let_def w3 d rm)
  have pd: "is_dir (lookup (fs ?w3) (butlast ?d))"
    using ces(1) by (simp add: butlast_append is_dir_def)
  have g: "lookup (put ?d None (fs ?w3)) ?d = Inl ENOENT"
    using put_same_dir[OF _ pd, of None] by simp
  have k: "lookup (put ?d None (fs ?w3)) (?nw @ [y]) = lookup (fs ?w3) (?nw @ [y])" for y
    by (intro put_other) simp_all
  show ?thesis
    unfolding rescued_def e using g k r3(2) by simp
qed

text \<open>What a rescue of another slot leaves of the three states.\<close>

lemma states_other_slot:
  assumes w: "within (B @ [''cur'', a]) (B @ [''new'']) t t'" and ne: "a \<noteq> s"
    and nn: "no_namesakes B s jes t"
  shows "no_namesakes B s jes t'"
    and "pending B s jes t \<Longrightarrow> pending B s jes t'"
    and "rescued B s jes t \<Longrightarrow> rescued B s jes t'"
proof -
  have slot: "lookup t' (B @ [''cur'', s]) = lookup t (B @ [''cur'', s])"
    using within_other_slot[OF w ne[symmetric], of "[]"] by simp
  have new: "lookup t' (B @ [''new'', x]) = lookup t (B @ [''new'', x])"
    if "x \<in> set (names_of jes)" for x
  proof -
    from nn that ne have "\<forall>m. lookup t ((B @ [''cur'', a]) @ [x]) \<noteq> Inr m"
      unfolding no_namesakes_def by simp
    with w have "lookup t' ((B @ [''new'']) @ x # []) = lookup t ((B @ [''new'']) @ x # [])"
      unfolding within_def by blast
    then show ?thesis by simp
  qed
  show "no_namesakes B s jes t'"
    unfolding no_namesakes_def
  proof (intro allI impI notI)
    fix s' x n assume h: "s' \<noteq> s \<and> x \<in> set (names_of jes)" "lookup t' (B @ [''cur'', s', x]) = Inr n"
    show False
    proof (cases "s' = a")
      case True
      with h(2) have "lookup t' ((B @ [''cur'', a]) @ [x]) = Inr n" by simp
      with w obtain m where "lookup t ((B @ [''cur'', a]) @ [x]) = Inr m"
        unfolding within_def by blast
      with nn h(1) True show False unfolding no_namesakes_def by simp
    next
      case False
      with within_other_slot[OF w, of s' "[x]"] h(2)
      have "lookup t (B @ [''cur'', s', x]) = Inr n" by simp
      with nn h(1) show False unfolding no_namesakes_def by blast
    qed
  qed
  show "pending B s jes t'" if "pending B s jes t"
    using that slot new w unfolding pending_def within_def by simp
  show "rescued B s jes t'" if "rescued B s jes t"
    unfolding rescued_def
  proof (intro conjI allI impI)
    show "lookup t' (B @ [''cur'', s]) = Inl ENOENT" using that slot by (simp add: rescued_def)
    fix x n assume m: "map_of jes x = Some n"
    then have "x \<in> set (names_of jes)" by (simp add: names_of_map_of)
    from new[OF this] that m show "lookup t' (B @ [''new'', x]) = Inr n" by (simp add: rescued_def)
  qed
qed

lemma states_same_slot:
  assumes w: "within (B @ [''cur'', s]) (B @ [''new'']) t t'"
    and nn: "no_namesakes B s jes t"
  shows "no_namesakes B s jes t'"
    and "rescued B s jes t \<Longrightarrow> t' = t"
proof -
  show "no_namesakes B s jes t'"
    unfolding no_namesakes_def
  proof (intro allI impI notI)
    fix s' x n assume h: "s' \<noteq> s \<and> x \<in> set (names_of jes)" "lookup t' (B @ [''cur'', s', x]) = Inr n"
    with within_other_slot[OF w, of s' "[x]"]
    have "lookup t (B @ [''cur'', s', x]) = Inr n" by simp
    with nn h(1) show False unfolding no_namesakes_def by blast
  qed
  show "t' = t" if "rescued B s jes t"
    using that w unfolding rescued_def within_def by blast
qed

lemma sweep_step:
  assumes c: "sched w = []" and v: "slot_names_ok (getCurDir qu) (fs w)"
    and nn: "no_namesakes (path_Join [basedir qu]) s jes (fs w)"
    and st: "pending (path_Join [basedir qu]) s jes (fs w) \<or> rescued (path_Join [basedir qu]) s jes (fs w)"
    and canon: "Atoi s = Inr p" "Itoa p = s" and dead: "procs w p = Some ESRCH"
  shows "sched (rescue_entry qu w x) = [] \<and> procs (rescue_entry qu w x) = procs w
     \<and> slot_names_ok (getCurDir qu) (fs (rescue_entry qu w x))
     \<and> no_namesakes (path_Join [basedir qu]) s jes (fs (rescue_entry qu w x))
     \<and> (pending (path_Join [basedir qu]) s jes (fs (rescue_entry qu w x))
        \<or> rescued (path_Join [basedir qu]) s jes (fs (rescue_entry qu w x)))
     \<and> (x = s \<or> rescued (path_Join [basedir qu]) s jes (fs w) \<longrightarrow>
          rescued (path_Join [basedir qu]) s jes (fs (rescue_entry qu w x)))"
proof -
  let ?B = "path_Join [basedir qu]"
  let ?w1 = "rescue_entry qu w x"
  note al = calm_alone[OF c]
  note k = rescue_entry_keeps[OF al v, of x]
  note ea = rescue_entry_alone[OF al v, of x]
  have c1: "sched ?w1 = []" using c by (rule calm_rescue_entry)
  have main: "no_namesakes ?B s jes (fs ?w1)
     \<and> (pending ?B s jes (fs ?w1) \<or> rescued ?B s jes (fs ?w1))
     \<and> (x = s \<or> rescued ?B s jes (fs w) \<longrightarrow> rescued ?B s jes (fs ?w1))"
  proof (cases "fs ?w1 = fs w")
    case True
    have "rescued ?B s jes (fs ?w1)" if "x = s" "pending ?B s jes (fs w)"
      using rescue_dead_calm[OF c v that(2) canon(1)[folded that(1)] canon(2) dead] .
    with True nn st show ?thesis by auto
  next
    case False
    with ea obtain p' where p': "Atoi x = Inr p'" "procs w p' = Some ESRCH"
      "within (getWorkerDir qu p') (getNewDir qu) (fs w) (fs ?w1)" by blast
    have wi: "within (?B @ [''cur'', Itoa p']) (?B @ [''new'']) (fs w) (fs ?w1)"
      using p'(3) by (simp add: getWorkerDir_eq getNewDir_eq)
    show ?thesis
    proof (cases "Itoa p' = s")
      case True
      note ss = states_same_slot[OF wi[unfolded True] nn]
      have "rescued ?B s jes (fs ?w1)" if "pending ?B s jes (fs w)"
        using rescue_dead_calm[OF c v that p'(1) True p'(2)] .
      moreover have "rescued ?B s jes (fs ?w1)" if "rescued ?B s jes (fs w)"
        using ss(2)[OF that] that by simp
      ultimately show ?thesis using ss(1) st by blast
    next
      case ne: False
      note so = states_other_slot[OF wi ne nn]
      have "x \<noteq> s"
      proof
        assume "x = s"
        with p'(1) canon(1) have "p' = p" by simp
        with canon(2) ne show False by simp
      qed
      with so st show ?thesis by blast
    qed
  qed
  with c1 k show ?thesis by simp
qed

lemma sweep_rescues:
  assumes "sched w = []" "slot_names_ok (getCurDir qu) (fs w)"
    and "no_namesakes (path_Join [basedir qu]) s jes (fs w)"
    and "pending (path_Join [basedir qu]) s jes (fs w) \<and> s \<in> set names
         \<or> rescued (path_Join [basedir qu]) s jes (fs w)"
    and canon: "Atoi s = Inr p" "Itoa p = s" and "procs w p = Some ESRCH"
  shows "rescued (path_Join [basedir qu]) s jes (fs (foldl (rescue_entry qu) w names))"
  using assms(1,2,3,4,7)
proof (induction names arbitrary: w)
  case Nil
  then show ?case by simp
next
  case (Cons x names)
  let ?B = "path_Join [basedir qu]"
  let ?w1 = "rescue_entry qu w x"
  have st: "pending ?B s jes (fs w) \<or> rescued ?B s jes (fs w)" using Cons.prems(4) by blast
  note s1 = sweep_step[OF Cons.prems(1,2,3) st canon Cons.prems(5), of x]
  have "pending ?B s jes (fs ?w1) \<and> s \<in> set names \<or> rescued ?B s jes (fs ?w1)"
    using s1 Cons.prems(4) by auto
  moreover have "procs ?w1 p = Some ESRCH" using s1 Cons.prems(5) by simp
  ultimately show ?case using Cons.IH[of ?w1] s1 by simp
qed

lemma padded_run:
  "RescueDeadJobs ex_queue (ex_world padded_tree [])
     = (None, (ex_world padded_tree [])\<lparr>logged := padded_log\<rparr>)"
  by (simp add: sweep_eval path_eval world_eval queue_tree_def padded_tree_def padded_log_def)

section \<open>Properties: the rescue of dead owners' jobs\<close>

text \<open>
  Claim C1 says that for every owner slot whose name parses as a process identifier that
  is dead, RescueDeadJobs moves every job of the slot into \<^verbatim>\<open>new\<close> and removes the slot.
  It fails for the slot \<^verbatim>\<open>007\<close>: the name parses as 7 and process 7 is dead, but the
  sweep looks for the jobs in \<^verbatim>\<open>cur/7\<close>, the directory that Itoa names, finds none,
  and leaves \<^verbatim>\<open>cur/007\<close> and the job in it where they are.
\<close>

theorem RescueDeadJobs_counterexample:
  "Atoi ''007'' = Inr 7 \<and> procs (ex_world padded_tree []) 7 = Some ESRCH
   \<and> RescueDeadJobs ex_queue (ex_world padded_tree [])
        = (None, (ex_world padded_tree [])\<lparr>logged := padded_log\<rparr>)
   \<and> lookup padded_tree (getCurDir ex_queue @ [''007'', ''foo'']) = Inr (Dir [])
   \<and> lookup padded_tree (getNewDir ex_queue @ [''foo'']) = Inl ENOENT"
proof -
  have "Atoi ''007'' = Inr 7"
    by (simp add: Atoi_def digit_val_def digit_chars_def)
  moreover have "procs (ex_world padded_tree []) 7 = Some ESRCH"
    by (simp add: ex_world_def ex_procs_def)
  moreover have "lookup padded_tree (getCurDir ex_queue @ [''007'', ''foo'']) = Inr (Dir [])"
    "lookup padded_tree (getNewDir ex_queue @ [''foo'']) = Inl ENOENT"
    by (simp_all add: padded_tree_def queue_tree_def ex_queue_def path_eval)
  ultimately show ?thesis using padded_run by simp
qed

text \<open>
  Claim C1, amended. For every owner slot under \<^verbatim>\<open>cur\<close> whose name parses as a
  process identifier, in a sweep with no failing system call and nobody else acting: if
  the identifier is dead, the name is the decimal form that Itoa writes of it, \<^verbatim>\<open>new\<close>
  is a directory and neither \<^verbatim>\<open>new\<close> nor another slot has an entry named as one of the
  slot's jobs, then RescueDeadJobs moves every job of the slot, with all it holds, into
  \<^verbatim>\<open>new\<close> and removes the slot; if the identifier is alive, RescueDeadJobs leaves the
  slot and every job in it untouched.
\<close>

theorem RescueDeadJobs_rescues_dead_owner:
  assumes calm: "sched w = []" and ok: "names_ok (fs w)"
    and atoi: "Atoi s = Inr p"
    and slot: "lookup (fs w) (getCurDir qu @ [s]) = Inr (Dir jes)"
    and res: "RescueDeadJobs qu w = (r, w')"
  shows "r = None
     \<and> (procs w p = Some ESRCH \<and> Itoa p = s \<and> is_dir (lookup (fs w) (getNewDir qu))
        \<and> (\<forall>x \<in> set (names_of jes). lookup (fs w) (getNewDir qu @ [x]) = Inl ENOENT
              \<and> (\<forall>s' n. s' \<noteq> s \<longrightarrow> lookup (fs w) (getCurDir qu @ [s', x]) \<noteq> Inr n))
        \<longrightarrow> lookup (fs w') (getCurDir qu @ [s]) = Inl ENOENT
            \<and> (\<forall>x n. map_of jes x = Some n \<longrightarrow> lookup (fs w') (getNewDir qu @ [x]) = Inr n))
     \<and> (procs w p = None \<longrightarrow> lookup (fs w') (getCurDir qu @ [s]) = Inr (Dir jes))"
proof -
  let ?B = "path_Join [basedir qu]"
  from slot obtain ces where ces: "lookup (fs w) (getCurDir qu) = Inr (Dir ces)"
    "map_of ces s = Some (Dir jes)" unfolding lookup_snoc_Inr by blast
  have rd: "readdirnames (getCurDir qu) w = ((names_of ces, None), w)"
    using calm by (rule readdirnames_calm) (simp add: fs_readdirnames_def ces)
  have w': "r = None" "w' = foldl (rescue_entry qu) w (names_of ces)"
    using res by (simp_all add: RescueDeadJobs_def rd)
  have sin: "s \<in> set (names_of ces)" using ces(2) by (simp add: names_of_map_of)
  have v: "slot_names_ok (getCurDir qu) (fs w)" using ok by (rule names_ok_slots)
  have deadpart: "lookup (fs w') (getCurDir qu @ [s]) = Inl ENOENT
      \<and> (\<forall>x n. map_of jes x = Some n \<longrightarrow> lookup (fs w') (getNewDir qu @ [x]) = Inr n)"
    if d: "procs w p = Some ESRCH" and canon: "Itoa p = s"
      and nd: "is_dir (lookup (fs w) (getNewDir qu))"
      and u: "\<forall>x \<in> set (names_of jes). lookup (fs w) (getNewDir qu @ [x]) = Inl ENOENT
              \<and> (\<forall>s' n. s' \<noteq> s \<longrightarrow> lookup (fs w) (getCurDir qu @ [s', x]) \<noteq> Inr n)"
  proof -
    have pe: "pending ?B s jes (fs w)"
      using slot nd u by (simp add: pending_def getCurDir_eq getNewDir_eq)
    have nn: "no_namesakes ?B s jes (fs w)"
      using u by (simp add: no_namesakes_def getCurDir_eq)
    from sweep_rescues[OF calm v nn _ atoi canon d, of "names_of ces"] pe sin
    have "rescued ?B s jes (fs w')" by (simp add: w')
    then show ?thesis by (simp add: rescued_def getCurDir_eq getNewDir_eq)
  qed
  have alivepart: "lookup (fs w') (getCurDir qu @ [s]) = Inr (Dir jes)" if "procs w p = None"
  proof -
    have "\<forall>p'. Atoi s = Inr p' \<longrightarrow> procs w p' \<noteq> Some ESRCH" using atoi that by simp
    from sweep_frame[OF calm_alone[OF calm] v this, of "names_of ces" "[]"] slot
    show ?thesis by (simp add: w')
  qed
  show ?thesis using w'(1) deadpart alivepart by blast
qed

text \<open>
  The witness: in the example sweep the job \<^verbatim>\<open>foo\<close> of the dead owner 424242 is in
  \<^verbatim>\<open>new\<close> with its property, the slot is gone, and the slot of the live owner 4242
  holds \<^verbatim>\<open>bar\<close> as before.
\<close>

theorem RescueDeadJobs_rescues_dead_owner_witness:
  "sched (ex_world sweep_tree []) = [] \<and> names_ok (fs (ex_world sweep_tree []))
   \<and> Atoi ''424242'' = Inr 424242 \<and> Itoa 424242 = ''424242''
   \<and> procs (ex_world sweep_tree []) 424242 = Some ESRCH
   \<and> Atoi ''4242'' = Inr 4242 \<and> procs (ex_world sweep_tree []) 4242 = None
   \<and> RescueDeadJobs ex_queue (ex_world sweep_tree [])
        = (None, (ex_world swept_tree [])\<lparr>logged := swept_log\<rparr>)
   \<and> lookup swept_tree (getCurDir ex_queue @ [''424242'']) = Inl ENOENT
   \<and> lookup swept_tree (getNewDir ex_queue @ [''foo'']) = Inr (Dir [(''state'', File ''s'')])
   \<and> lookup swept_tree (getCurDir ex_queue @ [''4242'']) = Inr (Dir [(''bar'', Dir [])])"
proof -
  let ?w = "ex_world sweep_tree []"
  have c: "sched ?w = []" by (simp add: ex_world_def)
  have n: "names_ok (fs ?w)"
    by (simp add: ex_world_def sweep_tree_def queue_tree_def valid_name_def)
  have a1: "Atoi ''424242'' = Inr 424242" and a2: "Atoi ''4242'' = Inr 4242"
    by (simp_all add: Atoi_def digit_val_def digit_chars_def)
  have i1: "Itoa 424242 = ''424242''"
    by (simp add: Itoa_def digits10.simps digit_chars_def)
  have p1: "procs ?w 424242 = Some ESRCH" and p2: "procs ?w 4242 = None"
    by (simp_all add: ex_world_def ex_procs_def)
  have s1: "lookup (fs ?w) (getCurDir ex_queue @ [''424242''])
      = Inr (Dir [(''foo'', Dir [(''state'', File ''s'')])])"
    and s2: "lookup (fs ?w) (getCurDir ex_queue @ [''4242'']) = Inr (Dir [(''bar'', Dir [])])"
    by (simp_all add: ex_world_def ex_queue_def sweep_tree_def queue_tree_def path_eval)
  have nd: "is_dir (lookup (fs ?w) (getNewDir ex_queue))"
    by (simp add: ex_world_def ex_queue_def sweep_tree_def queue_tree_def path_eval is_dir_def)
  have u: "\<forall>x \<in> set (names_of [(''foo'', Dir [(''state'', File ''s'')])]).
      lookup (fs ?w) (getNewDir ex_queue @ [x]) = Inl ENOENT
      \<and> (\<forall>s' n. s' \<noteq> ''424242'' \<longrightarrow> lookup (fs ?w) (getCurDir ex_queue @ [s', x]) \<noteq> Inr n)"
    by (auto simp: names_of_def ex_world_def ex_queue_def sweep_tree_def queue_tree_def path_eval)
  from RescueDeadJobs_rescues_dead_owner [OF c n a1 s1 sweep_run] p1 i1 nd u
  have d: "lookup swept_tree (getCurDir ex_queue @ [''424242'']) = Inl ENOENT"
    "lookup swept_tree (getNewDir ex_queue @ [''foo'']) = Inr (Dir [(''state'', File ''s'')])"
    by (simp_all add: ex_world_def)
  from RescueDeadJobs_rescues_dead_owner [OF c n a2 s2 sweep_run] p2
  have l: "lookup swept_tree (getCurDir ex_queue @ [''4242'']) = Inr (Dir [(''bar'', Dir [])])"
    by (simp add: ex_world_def)
  show ?thesis
    using c n a1 a2 i1 p1 p2 sweep_run d l by simp
qed

section \<open>The jobs that CreateJob and Take return\<close>

text \<open>
  The theorems on Submit, Finish and Fail speak of a job created in staging and of a
  job held in the caller's owner slot. These are the jobs the code hands out: CreateJob
  with a prefix without a slash returns a job in staging, and Take, on a tree of proper
  entry names with no other process acting, returns a job held in the caller's slot.
\<close>

lemma suffixed_valid:
  assumes "CHR ''/'' \<notin> set pre"
  shows "valid_name (pre @ digits10 r)"
proof -
  have s: "set (digits10 r) \<subseteq> set digit_chars" by (rule digits10_set)
  have ne: "digits10 r \<noteq> []" by (rule digits10_nonempty)
  have nd: "CHR ''/'' \<notin> set digit_chars" "CHR ''.'' \<notin> set digit_chars"
    by (simp_all add: digit_chars_def)
  have "last (pre @ digits10 r) \<in> set (digits10 r)" using ne by simp
  then have l: "last (pre @ digits10 r) \<noteq> CHR ''.''" using s nd by auto
  have "pre @ digits10 r \<noteq> ''.''" "pre @ digits10 r \<noteq> ''..''"
    using l by (metis last.simps list.distinct(1))+
  moreover have "CHR ''/'' \<notin> set (pre @ digits10 r)" using assms s nd by auto
  ultimately show ?thesis using ne by (simp add: valid_name_def)
qed

lemma TempDir_try_name:
  "TempDir_try rs d pre w = (Inr p, w') \<Longrightarrow> \<exists>r. p = pjoin d [pre @ digits10 r]"
  by (induction rs arbitrary: w)
     (auto simp: Let_def split: prod.splits option.splits if_splits)

lemma CreateJob_in_staging:
  assumes "CHR ''/'' \<notin> set pre" "CreateJob qu pre w = (Inr job, w')"
  shows "in_staging job \<and> job_q job = qu"
proof -
  from assms(2) obtain tmp where
    t: "ioutil_TempDir (path_Join [basedir qu, ''tmp'']) pre w = (Inr tmp, w')"
    and j: "job = \<lparr>Basename = path_Base tmp, dir = tmp, job_q = qu\<rparr>"
    by (auto simp: CreateJob_def split: prod.splits sum.splits)
  from t obtain r where "tmp = pjoin (path_Join [basedir qu, ''tmp'']) [pre @ digits10 r]"
    unfolding ioutil_TempDir_def by (blast dest: TempDir_try_name)
  then have "tmp = path_Join [basedir qu, ''tmp''] @ [pre @ digits10 r]"
    by (simp add: pjoin_valid1 suffixed_valid[OF assms(1)])
  then show ?thesis
    using j suffixed_valid[OF assms(1), of r] by (simp add: in_staging_def path_Base_def)
qed

lemma rand_Intn_alone:
  assumes "rand_Intn n w = (i, w')" "0 < n"
  shows "i < n" "fs w' = fs w" "alone w' = alone w" "getpid w' = getpid w"
  using assms by (auto simp: rand_Intn_def alone_def split: list.splits)

lemma Take_body_alone:
  assumes "alone w" "names_ok (fs w)"
  shows "case Take_body qu w of
           Retry w' \<Rightarrow> alone w' \<and> fs w' = fs w
         | Done j e w' \<Rightarrow> (\<forall>job. j = Some job \<longrightarrow> held job w' \<and> job_q job = qu \<and> e = None)"
proof -
  obtain names err w1 where r: "readdirnames (path_Join [basedir qu, ''new'']) w = ((names, err), w1)"
    by (metis prod.exhaust)
  note ra = readdirnames_alone[OF assms(1) r]
  show ?thesis
  proof (cases "err = None \<and> names \<noteq> []")
    case False
    then show ?thesis using r by (auto simp: Take_body_def split: option.splits)
  next
    case True
    obtain i w2 where g: "rand_Intn (length names) w1 = (i, w2)" by force
    from True have "0 < length names" by simp
    note rn = rand_Intn_alone[OF g this]
    have a2: "alone w2" using rn ra by simp
    have "names ! i \<in> set names" using rn(1) by simp
    with ra(5) obtain n where "lookup (fs w) (path_Join [basedir qu, ''new''] @ [names ! i]) = Inr n"
      by blast
    with assms(2) have v: "valid_name (names ! i)" by (rule names_ok_child)
    let ?src = "path_Join [basedir qu, ''new'', names ! i]"
    let ?dst = "path_Join [basedir qu, mycur w2, names ! i]"
    obtain e w3 where m: "os_Rename ?src ?dst w2 = (e, w3)" by force
    note oa = os_Rename_alone[OF a2 m]
    have gp: "getpid w3 = getpid w2"
      using m syscall_alone(3)[OF a2, of "fs_rename ?src ?dst" e w3] by (simp add: os_Rename_def)
    have d: "?dst = getWorkerDir qu (getpid w3) @ [names ! i]"
      by (simp add: path_Join_mycur[OF v] getWorkerDir_eq gp)
    show ?thesis
      using True r g m oa rn ra v d
      by (auto simp: Take_body_def Let_def held_def split: option.splits)
  qed
qed

lemma Take_returns_held_aux:
  assumes "Take qu w = Some y"
  shows "alone w \<longrightarrow> names_ok (fs w) \<longrightarrow>
         (\<forall>job. fst (fst y) = Some job \<longrightarrow>
            held job (snd y) \<and> job_q job = qu \<and> snd (fst y) = None)"
proof (rule Take.raw_induct
    [where P = "\<lambda>qu w y. alone w \<longrightarrow> names_ok (fs w) \<longrightarrow>
         (\<forall>job. fst (fst y) = Some job \<longrightarrow>
            held job (snd y) \<and> job_q job = qu \<and> snd (fst y) = None)", OF _ assms])
  fix Take' :: "Queue \<Rightarrow> world \<Rightarrow> ((Job option \<times> error option) \<times> world) option"
    and qu' w' y'
  assume ih: "\<And>qu w y. Take' qu w = Some y \<Longrightarrow> alone w \<longrightarrow> names_ok (fs w) \<longrightarrow>
         (\<forall>job. fst (fst y) = Some job \<longrightarrow>
            held job (snd y) \<and> job_q job = qu \<and> snd (fst y) = None)"
    and body: "(case Take_body qu' w' of Retry w'' \<Rightarrow> Take' qu' w''
                | Done j err w'' \<Rightarrow> Some ((j, err), w'')) = Some y'"
  show "alone w' \<longrightarrow> names_ok (fs w') \<longrightarrow>
         (\<forall>job. fst (fst y') = Some job \<longrightarrow>
            held job (snd y') \<and> job_q job = qu' \<and> snd (fst y') = None)"
  proof (intro impI)
    assume a: "alone w'" and n: "names_ok (fs w')"
    show "\<forall>job. fst (fst y') = Some job \<longrightarrow>
            held job (snd y') \<and> job_q job = qu' \<and> snd (fst y') = None"
    proof (cases "Take_body qu' w'")
      case (Retry w'')
      with Take_body_alone[OF a n, of qu'] have "alone w''" "names_ok (fs w'')" using n by simp_all
      moreover from body Retry have "Take' qu' w'' = Some y'" by simp
      ultimately show ?thesis using ih by blast
    next
      case (Done j e w'')
      with body have "y' = ((j, e), w'')" by simp
      with Take_body_alone[OF a n, of qu'] Done show ?thesis by simp
    qed
  qed
qed

lemma Take_returns_held:
  assumes "alone w" "names_ok (fs w)" "Take qu w = Some ((Some job, err), w')"
  shows "held job w' \<and> job_q job = qu \<and> err = None"
  using Take_returns_held_aux[OF assms(3)] assms(1,2) by simp

end
